theory Spec2Isabelle
  imports Complex_Main "HOL-Library.Sublist" "HOL-Library.Multiset"
begin

section \<open>Text\<close>

text \<open>
  The script works on Python \<open>str\<close> values. They are modelled as HOL strings, a
  \<open>char\<close> standing for the code point of the same number, so the model covers the
  documents whose code points are all below 256.
\<close>

subsection \<open>\<open>str.index\<close> and slices\<close>

text \<open>\<open>find_sub sub s\<close>: the offset of the leftmost occurrence of \<open>sub\<close> in \<open>s\<close>.\<close>

fun find_sub :: "string \<Rightarrow> string \<Rightarrow> nat option" where
  "find_sub sub [] = (if sub = [] then Some 0 else None)"
| "find_sub sub (c # cs) =
     (if prefix sub (c # cs) then Some 0 else map_option Suc (find_sub sub cs))"

text \<open>
  \<open>content.index(sub, start)\<close>: the lowest index at or after \<open>start\<close> where \<open>sub\<close>
  occurs; \<open>None\<close> stands for the \<open>ValueError\<close> that the caller catches.
\<close>

definition str_index :: "string \<Rightarrow> string \<Rightarrow> nat \<Rightarrow> nat option" where
  "str_index content sub start =
     (if length content < start then None
      else map_option (\<lambda>k. start + k) (find_sub sub (drop start content)))"

text \<open>\<open>xs[lo : hi]\<close>, of a string or a list, for indices that are not negative.\<close>

definition slice :: "'a list \<Rightarrow> nat \<Rightarrow> nat \<Rightarrow> 'a list" where
  "slice content lo hi = take (hi - lo) (drop lo content)"

section \<open>Block extractor\<close>

definition search_prefix :: "string \<Rightarrow> string" where
  "search_prefix block_name = CHR ''('' # block_name"

text \<open>
  The inner \<open>for i in range(block_start, len(content))\<close>: the first argument is
  \<open>content[i:]\<close>, the third the counter \<open>open_parens\<close> before \<open>content[i]\<close> is read.
  \<open>Some i\<close> is the index at which the loop breaks, \<open>None\<close> its \<open>else\<close> branch.
\<close>

fun scan_block :: "string \<Rightarrow> nat \<Rightarrow> int \<Rightarrow> nat option" where
  "scan_block [] i open_parens = None"
| "scan_block (c # cs) i open_parens =
     (let open_parens' =
            (if c = CHR ''('' then open_parens + 1
             else if c = CHR '')'' then open_parens - 1
             else open_parens)
      in if open_parens' = 0 then Some i else scan_block cs (Suc i) open_parens')"

lemma find_sub_bound:
  "find_sub sub s = Some k \<Longrightarrow> k + length sub \<le> length s"
proof (induction s arbitrary: k)
  case Nil
  then show ?case by (simp split: if_splits)
next
  case (Cons c cs)
  show ?case
  proof (cases "prefix sub (c # cs)")
    case True
    from prefix_length_le [OF True] Cons.prems True show ?thesis by simp
  next
    case False
    with Cons.prems obtain k' where "find_sub sub cs = Some k'" "k = Suc k'"
      by auto
    with Cons.IH show ?thesis by fastforce
  qed
qed

lemma str_index_bound:
  assumes "str_index content sub start = Some b"
  shows "start \<le> b" and "b + length sub \<le> length content"
proof -
  from assms obtain k where k: "find_sub sub (drop start content) = Some k" "b = start + k"
    and le: "start \<le> length content"
    by (auto simp: str_index_def split: if_splits)
  show "start \<le> b" using k by simp
  from find_sub_bound [OF k(1)] le k(2) show "b + length sub \<le> length content"
    by simp
qed

lemma scan_block_bound:
  "scan_block s i d = Some e \<Longrightarrow> i \<le> e \<and> e < i + length s"
proof (induction s arbitrary: i d)
  case Nil
  then show ?case by simp
next
  case (Cons c cs)
  then show ?case
    by (fastforce simp: Let_def split: if_splits)
qed

text \<open>
  The outer \<open>while True\<close> loop, with the loop variables \<open>start_index\<close> and \<open>blocks\<close>
  as arguments. Every round moves \<open>start_index\<close> forward, which is why it ends.
\<close>

function parse_loop :: "string \<Rightarrow> string \<Rightarrow> nat \<Rightarrow> string list \<Rightarrow> string list" where
  "parse_loop content block_name start_index blocks =
     (case str_index content (search_prefix block_name) start_index of
        None \<Rightarrow> blocks
      | Some block_start \<Rightarrow>
          (case scan_block (drop block_start content) block_start 0 of
             Some i \<Rightarrow>
               parse_loop content block_name (i + 1)
                 (blocks @ [slice content block_start (i + 1)])
           | None \<Rightarrow>
               parse_loop content block_name
                 (block_start + length (search_prefix block_name)) blocks))"
  by pat_completeness auto

termination
proof (relation "measure (\<lambda>(content, block_name, start_index, blocks). length content - start_index)")
  show "wf (measure (\<lambda>(content, block_name, start_index, blocks). length content - start_index))"
    by simp
next
  fix content block_name :: string and start_index :: nat and blocks :: "string list"
    and block_start :: nat
  assume idx: "str_index content (search_prefix block_name) start_index = Some block_start"
  from str_index_bound [OF idx]
  have b: "start_index \<le> block_start"
    "block_start + length (search_prefix block_name) \<le> length content"
    by simp_all
  have pos: "length (search_prefix block_name) = Suc (length block_name)"
    by (simp add: search_prefix_def)
  {
    assume "scan_block (drop block_start content) block_start 0 = None"
    from b pos
    show "((content, block_name, block_start + length (search_prefix block_name), blocks),
           (content, block_name, start_index, blocks))
          \<in> measure (\<lambda>(content, block_name, start_index, blocks). length content - start_index)"
      by simp
  }
  {
    fix i
    assume "scan_block (drop block_start content) block_start 0 = Some i"
    from scan_block_bound [OF this] b pos
    show "((content, block_name, i + 1, blocks @ [slice content block_start (i + 1)]),
           (content, block_name, start_index, blocks))
          \<in> measure (\<lambda>(content, block_name, start_index, blocks). length content - start_index)"
      by (simp, arith)
  }
qed

declare parse_loop.simps [simp del]

definition parse_s_expression_blocks :: "string \<Rightarrow> string \<Rightarrow> string list" where
  "parse_s_expression_blocks content block_name = parse_loop content block_name 0 []"

subsection \<open>Parenthesis depth\<close>

text \<open>
  The depth counter of the scan as a function of the text read: \<open>paren_depth s\<close> is the
  number of \<open>(\<close> in \<open>s\<close> minus the number of \<open>)\<close>.
\<close>


definition paren_delta :: "char \<Rightarrow> int" where
  "paren_delta c = (if c = CHR ''('' then 1 else if c = CHR '')'' then - 1 else 0)"

definition paren_depth :: "string \<Rightarrow> int" where
  "paren_depth s = sum_list (map paren_delta s)"

lemma paren_depth_simps [simp]:
  "paren_depth [] = 0"
  "paren_depth (c # cs) = paren_delta c + paren_depth cs"
  "paren_depth (xs @ ys) = paren_depth xs + paren_depth ys"
  by (simp_all add: paren_depth_def)

lemma scan_block_step:
  "scan_block (c # cs) i d =
     (if d + paren_delta c = 0 then Some i else scan_block cs (Suc i) (d + paren_delta c))"
  by (simp add: paren_delta_def Let_def)

lemma scan_block_None_iff:
  "scan_block s i d = None \<longleftrightarrow> (\<forall>m < length s. d + paren_depth (take (Suc m) s) \<noteq> 0)"
proof (induction s arbitrary: i d)
  case Nil
  show ?case by simp
next
  case (Cons c cs)
  show ?case
  proof (cases "d + paren_delta c = 0")
    case True
    then show ?thesis by (auto simp: scan_block_step simp del: scan_block.simps)
  next
    case False
    have "(\<forall>m < length (c # cs). d + paren_depth (take (Suc m) (c # cs)) \<noteq> 0)
        \<longleftrightarrow> (\<forall>m < length cs. d + paren_delta c + paren_depth (take (Suc m) cs) \<noteq> 0)"
      (is "?L \<longleftrightarrow> ?R")
    proof
      assume l: ?L
      show ?R
      proof (intro allI impI)
        fix m assume "m < length cs"
        then have "Suc m < length (c # cs)" by simp
        from l [rule_format, OF this] show "d + paren_delta c + paren_depth (take (Suc m) cs) \<noteq> 0"
          by (simp add: add.assoc)
      qed
    next
      assume r: ?R
      show ?L
      proof (intro allI impI)
        fix m assume m: "m < length (c # cs)"
        show "d + paren_depth (take (Suc m) (c # cs)) \<noteq> 0"
        proof (cases m)
          case 0
          with False show ?thesis by simp
        next
          case (Suc k)
          with m have "k < length cs" by simp
          from r [rule_format, OF this] Suc show ?thesis by (simp add: add.assoc)
        qed
      qed
    qed
    with False Cons.IH [of "Suc i" "d + paren_delta c"] show ?thesis
      by (simp add: scan_block_step del: scan_block.simps)
  qed
qed

lemma scan_block_Some_iff:
  "scan_block s i d = Some e \<longleftrightarrow>
     (\<exists>n. e = i + n \<and> n < length s \<and> d + paren_depth (take (Suc n) s) = 0
        \<and> (\<forall>m < n. d + paren_depth (take (Suc m) s) \<noteq> 0))"
proof (induction s arbitrary: i d)
  case Nil
  show ?case by simp
next
  case (Cons c cs)
  show ?case
  proof (cases "d + paren_delta c = 0")
    case True
    have "(\<exists>n. e = i + n \<and> n < length (c # cs) \<and> d + paren_depth (take (Suc n) (c # cs)) = 0
        \<and> (\<forall>m < n. d + paren_depth (take (Suc m) (c # cs)) \<noteq> 0)) \<longleftrightarrow> e = i"
      (is "?L \<longleftrightarrow> _")
    proof
      assume ?L
      then obtain n where n: "e = i + n" "n < length (c # cs)"
        "\<forall>m < n. d + paren_depth (take (Suc m) (c # cs)) \<noteq> 0" by blast
      have "n = 0"
      proof (rule ccontr)
        assume "n \<noteq> 0"
        then have "0 < n" by simp
        from n(3) [rule_format, OF this] True show False by simp
      qed
      with n show "e = i" by simp
    next
      assume "e = i"
      with True show ?L by (intro exI [of _ 0]) simp
    qed
    with True show ?thesis by (auto simp: scan_block_step simp del: scan_block.simps)
  next
    case False
    let ?d = "d + paren_delta c"
    have "(\<exists>n. e = i + n \<and> n < length (c # cs) \<and> d + paren_depth (take (Suc n) (c # cs)) = 0
        \<and> (\<forall>m < n. d + paren_depth (take (Suc m) (c # cs)) \<noteq> 0))
      \<longleftrightarrow> (\<exists>n. e = Suc i + n \<and> n < length cs \<and> ?d + paren_depth (take (Suc n) cs) = 0
        \<and> (\<forall>m < n. ?d + paren_depth (take (Suc m) cs) \<noteq> 0))"
      (is "?L \<longleftrightarrow> ?R")
    proof
      assume ?L
      then obtain n where n: "e = i + n" "n < length (c # cs)"
        "d + paren_depth (take (Suc n) (c # cs)) = 0"
        "\<forall>m < n. d + paren_depth (take (Suc m) (c # cs)) \<noteq> 0" by blast
      from n(3) False obtain k where k: "n = Suc k" by (cases n) auto
      have "\<forall>m < k. ?d + paren_depth (take (Suc m) cs) \<noteq> 0"
      proof (intro allI impI)
        fix m assume "m < k"
        then have "Suc m < n" using k by simp
        from n(4) [rule_format, OF this] show "?d + paren_depth (take (Suc m) cs) \<noteq> 0"
          by (simp add: add.assoc)
      qed
      with n k show ?R by (intro exI [of _ k]) (simp add: add.assoc)
    next
      assume ?R
      then obtain n where n: "e = Suc i + n" "n < length cs"
        "?d + paren_depth (take (Suc n) cs) = 0"
        "\<forall>m < n. ?d + paren_depth (take (Suc m) cs) \<noteq> 0" by blast
      have "\<forall>m < Suc n. d + paren_depth (take (Suc m) (c # cs)) \<noteq> 0"
      proof (intro allI impI)
        fix m assume m: "m < Suc n"
        show "d + paren_depth (take (Suc m) (c # cs)) \<noteq> 0"
        proof (cases m)
          case 0
          with False show ?thesis by simp
        next
          case (Suc j)
          with m have "j < n" by simp
          from n(4) [rule_format, OF this] Suc show ?thesis by (simp add: add.assoc)
        qed
      qed
      with n show ?L by (intro exI [of _ "Suc n"]) (simp add: add.assoc)
    qed
    with False Cons.IH [of "Suc i" ?d] show ?thesis
      by (simp add: scan_block_step del: scan_block.simps)
  qed
qed


lemma paren_depth_count:
  "paren_depth s = int (count_list s CHR ''('') - int (count_list s CHR '')'')"
  by (induction s) (auto simp: paren_delta_def)

lemma find_sub_Some_prefix:
  "find_sub sub s = Some k \<Longrightarrow> prefix sub (drop k s)"
proof (induction s arbitrary: k)
  case Nil
  then show ?case by (simp split: if_splits)
next
  case (Cons c cs)
  then show ?case by (cases "prefix sub (c # cs)") auto
qed

lemma find_sub_Some_first:
  "find_sub sub s = Some k \<Longrightarrow> j < k \<Longrightarrow> \<not> prefix sub (drop j s)"
proof (induction s arbitrary: k j)
  case Nil
  then show ?case by (simp split: if_splits)
next
  case (Cons c cs)
  show ?case
  proof (cases "prefix sub (c # cs)")
    case True
    with Cons.prems show ?thesis by simp
  next
    case False
    with Cons.prems obtain k' where k': "find_sub sub cs = Some k'" "k = Suc k'"
      by auto
    show ?thesis
    proof (cases j)
      case 0
      with False show ?thesis by simp
    next
      case (Suc j')
      with Cons.prems k' have "j' < k'" by simp
      from Cons.IH [OF k'(1) this] Suc show ?thesis by simp
    qed
  qed
qed

lemma find_sub_None:
  "find_sub sub s = None \<Longrightarrow> j \<le> length s \<Longrightarrow> \<not> prefix sub (drop j s)"
proof (induction s arbitrary: j)
  case Nil
  then show ?case by (simp split: if_splits)
next
  case (Cons c cs)
  from Cons.prems(1) have np: "\<not> prefix sub (c # cs)" and rest: "find_sub sub cs = None"
    by (auto split: if_splits)
  show ?case
  proof (cases j)
    case 0
    with np show ?thesis by simp
  next
    case (Suc j')
    with Cons.prems have "j' \<le> length cs" by simp
    from Cons.IH [OF rest this] Suc show ?thesis by simp
  qed
qed

lemma find_sub_eqI:
  "k \<le> length s \<Longrightarrow> prefix sub (drop k s) \<Longrightarrow> (\<And>j. j < k \<Longrightarrow> \<not> prefix sub (drop j s))
     \<Longrightarrow> find_sub sub s = Some k"
proof (cases "find_sub sub s")
  case None
  assume "k \<le> length s" "prefix sub (drop k s)"
  with find_sub_None [OF None] show ?thesis by blast
next
  case (Some k')
  assume k: "prefix sub (drop k s)" and first: "\<And>j. j < k \<Longrightarrow> \<not> prefix sub (drop j s)"
  from find_sub_Some_prefix [OF Some] first have "\<not> k' < k" by blast
  moreover from find_sub_Some_first [OF Some] k have "\<not> k < k'" by blast
  ultimately show ?thesis using Some by simp
qed

lemma find_sub_None_iff:
  "find_sub sub s = None \<longleftrightarrow> \<not> sublist sub s"
proof
  assume n: "find_sub sub s = None"
  show "\<not> sublist sub s"
  proof
    assume "sublist sub s"
    then obtain ps ss where s: "s = ps @ sub @ ss" by (auto simp: sublist_def)
    then have "prefix sub (drop (length ps) s)" "length ps \<le> length s" by simp_all
    with find_sub_None [OF n] show False by blast
  qed
next
  assume ns: "\<not> sublist sub s"
  show "find_sub sub s = None"
  proof (cases "find_sub sub s")
    case None
    then show ?thesis .
  next
    case (Some k)
    from find_sub_Some_prefix [OF Some] obtain ss where "drop k s = sub @ ss"
      by (auto simp: prefix_def)
    then have "s = take k s @ sub @ ss" by (metis append_take_drop_id)
    with ns show ?thesis by (auto simp: sublist_def)
  qed
qed

lemma parse_loop_stop:
  "str_index content (search_prefix tag) start = None \<Longrightarrow>
     parse_loop content tag start blocks = blocks"
  by (simp add: parse_loop.simps [of content tag start])

lemma parse_loop_found:
  "str_index content (search_prefix tag) start = Some b \<Longrightarrow>
   scan_block (drop b content) b 0 = Some i \<Longrightarrow>
     parse_loop content tag start blocks =
       parse_loop content tag (i + 1) (blocks @ [slice content b (i + 1)])"
  by (simp add: parse_loop.simps [of content tag start])

lemma parse_loop_dropped:
  "str_index content (search_prefix tag) start = Some b \<Longrightarrow>
   scan_block (drop b content) b 0 = None \<Longrightarrow>
     parse_loop content tag start blocks =
       parse_loop content tag (b + length (search_prefix tag)) blocks"
  by (simp add: parse_loop.simps [of content tag start])

lemma parse_loop_cursor_induct [consumes 0, case_names stop found dropped]:
  assumes stop: "\<And>start. str_index content (search_prefix tag) start = None \<Longrightarrow> P start"
    and found: "\<And>start b i. str_index content (search_prefix tag) start = Some b \<Longrightarrow>
        scan_block (drop b content) b 0 = Some i \<Longrightarrow> P (i + 1) \<Longrightarrow> P start"
    and dropped: "\<And>start b. str_index content (search_prefix tag) start = Some b \<Longrightarrow>
        scan_block (drop b content) b 0 = None \<Longrightarrow>
        P (b + length (search_prefix tag)) \<Longrightarrow> P start"
  shows "P start"
proof (induction "length content - start" arbitrary: start rule: less_induct)
  case less
  show ?case
  proof (cases "str_index content (search_prefix tag) start")
    case None
    then show ?thesis by (rule stop)
  next
    case (Some b)
    from str_index_bound [OF Some]
    have b: "start \<le> b" "b + length (search_prefix tag) \<le> length content"
      by simp_all
    have len: "length (search_prefix tag) = Suc (length tag)"
      by (simp add: search_prefix_def)
    show ?thesis
    proof (cases "scan_block (drop b content) b 0")
      case None
      from b len have "length content - (b + length (search_prefix tag)) < length content - start"
        by arith
      from dropped [OF Some None less [OF this]] show ?thesis .
    next
      case (Some i)
      from scan_block_bound [OF Some] b len
      have "length content - (i + 1) < length content - start"
        by (simp, arith)
      from found [OF \<open>str_index content (search_prefix tag) start = Some b\<close> Some less [OF this]]
      show ?thesis .
    qed
  qed
qed

lemma parse_loop_acc:
  "parse_loop content tag start blocks = blocks @ parse_loop content tag start []"
proof (induction start arbitrary: blocks rule: parse_loop_cursor_induct [of content tag])
  case (stop start)
  then show ?case by (simp add: parse_loop_stop)
next
  case (found start b i)
  from found.IH [of "blocks @ [slice content b (i + 1)]"]
    found.IH [of "[slice content b (i + 1)]"]
  show ?case
    by (simp add: parse_loop_found [OF found.hyps(1,2)])
next
  case (dropped start b)
  from dropped.IH [of blocks] show ?case
    by (simp add: parse_loop_dropped [OF dropped.hyps(1,2)])
qed



subsection \<open>Shape of the extracted blocks\<close>

text \<open>
  Spans \<open>(s, e)\<close> stand for \<open>content[s:e]\<close>. \<open>ordered_spans lo spans\<close>: the spans are
  not empty, start at or after \<open>lo\<close>, and each starts at or after the end of the one
  before it.
\<close>

fun ordered_spans :: "nat \<Rightarrow> (nat \<times> nat) list \<Rightarrow> bool" where
  "ordered_spans lo [] = True"
| "ordered_spans lo ((s, e) # rest) = (lo \<le> s \<and> s < e \<and> ordered_spans e rest)"

lemma ordered_spans_mono:
  "ordered_spans lo' spans \<Longrightarrow> lo \<le> lo' \<Longrightarrow> ordered_spans lo spans"
  by (cases spans) auto

text \<open>
  \<open>tag_open tag\<close>: no proper prefix of the search token \<open>(tag\<close> but the empty one has
  as many \<open>)\<close> as \<open>(\<close>. It holds for every tag without \<open>)\<close>.
\<close>

definition tag_open :: "string \<Rightarrow> bool" where
  "tag_open tag =
     list_all (\<lambda>n. paren_depth (take n (search_prefix tag)) \<noteq> 0) [1..<Suc (length tag)]"

lemma tag_open_iff:
  "tag_open tag \<longleftrightarrow>
     (\<forall>n. 1 \<le> n \<and> n \<le> length tag \<longrightarrow> paren_depth (take n (search_prefix tag)) \<noteq> 0)"
  unfolding tag_open_def list_all_iff by (auto simp: less_Suc_eq_le)

lemma depth_stays_positive:
  assumes "s \<noteq> []" "hd s = CHR ''(''"
    and nz: "\<And>k. k < n \<Longrightarrow> paren_depth (take (Suc k) s) \<noteq> 0"
  shows "m < n \<Longrightarrow> m < length s \<Longrightarrow> 0 < paren_depth (take (Suc m) s)"
proof (induction m)
  case 0
  from assms(1,2) have "take (Suc 0) s = [CHR ''('']" by (cases s) simp_all
  then show ?case by (simp add: paren_delta_def)
next
  case (Suc m)
  then have pos: "0 < paren_depth (take (Suc m) s)" by simp
  from Suc.prems have "take (Suc (Suc m)) s = take (Suc m) s @ [s ! Suc m]"
    by (simp add: take_Suc_conv_app_nth)
  then have "paren_depth (take (Suc (Suc m)) s) = paren_depth (take (Suc m) s) + paren_delta (s ! Suc m)"
    by simp
  moreover have "- 1 \<le> paren_delta (s ! Suc m)" by (simp add: paren_delta_def)
  ultimately have "0 \<le> paren_depth (take (Suc (Suc m)) s)" using pos by linarith
  with nz [OF Suc.prems(1)] show ?case by linarith
qed

text \<open>What the two searches of one round establish about the span they return.\<close>

definition block_span :: "string \<Rightarrow> string \<Rightarrow> nat \<Rightarrow> nat \<Rightarrow> bool" where
  "block_span content tag s e \<longleftrightarrow>
     s < e \<and> e \<le> length content \<and> prefix (search_prefix tag) (drop s content)
     \<and> paren_depth (slice content s e) = 0
     \<and> (\<forall>n. 0 < n \<and> n < e - s \<longrightarrow> 0 < paren_depth (take n (slice content s e)))"

lemma str_index_prefix:
  assumes "str_index content sub start = Some b"
  shows "prefix sub (drop b content)"
proof -
  from assms obtain k where k: "find_sub sub (drop start content) = Some k" "b = start + k"
    by (auto simp: str_index_def split: if_splits)
  from find_sub_Some_prefix [OF k(1)] k(2) show ?thesis by (simp add: add.commute)
qed

lemma found_block_span:
  assumes idx: "str_index content (search_prefix tag) start = Some b"
    and scan: "scan_block (drop b content) b 0 = Some i"
  shows "block_span content tag b (i + 1)"
proof -
  let ?s = "drop b content"
  from str_index_prefix [OF idx] have pre: "prefix (search_prefix tag) ?s" .
  then have ne: "?s \<noteq> []" and hd: "hd ?s = CHR ''(''"
    by (auto simp: search_prefix_def prefix_def)
  from scan obtain n where n: "i = b + n" "n < length ?s"
    "paren_depth (take (Suc n) ?s) = 0"
    "\<forall>m < n. paren_depth (take (Suc m) ?s) \<noteq> 0"
    by (auto simp: scan_block_Some_iff)
  have sl: "slice content b (i + 1) = take (Suc n) ?s"
    using n(1) by (simp add: slice_def)
  have "0 < paren_depth (take k (slice content b (i + 1)))" if k: "0 < k" "k < i + 1 - b" for k
  proof -
    from k obtain m where m: "k = Suc m" by (cases k) auto
    with k n(1) have mn: "m < n" by simp
    with n(2) have ml: "m < length ?s" by simp
    from depth_stays_positive [OF ne hd _ mn ml] n(4)
    have "0 < paren_depth (take (Suc m) ?s)" by blast
    moreover from mn have "take k (take (Suc n) ?s) = take (Suc m) ?s"
      using m by (simp add: min_def)
    ultimately show ?thesis using sl by simp
  qed
  with n pre sl show ?thesis
    by (simp add: block_span_def)
qed

lemma parse_loop_spans:
  "\<exists>spans. parse_loop content tag start [] = map (\<lambda>(s, e). slice content s e) spans
     \<and> ordered_spans start spans
     \<and> (\<forall>(s, e) \<in> set spans. block_span content tag s e)"
proof (induction start rule: parse_loop_cursor_induct [of content tag])
  case (stop start)
  then show ?case by (intro exI [of _ "[]"]) (simp add: parse_loop_stop)
next
  case (found start b i)
  then obtain spans where sp: "parse_loop content tag (i + 1) [] = map (\<lambda>(s, e). slice content s e) spans"
    "ordered_spans (i + 1) spans"
    "\<forall>(s, e) \<in> set spans. block_span content tag s e" by blast
  from found_block_span [OF found.hyps(1,2)] have bs: "block_span content tag b (i + 1)" .
  from str_index_bound [OF found.hyps(1)] have "start \<le> b" by simp
  moreover from bs have "b < i + 1" by (simp add: block_span_def)
  moreover have "parse_loop content tag start [] = slice content b (i + 1) # parse_loop content tag (i + 1) []"
    using parse_loop_found [OF found.hyps(1,2), of "[]"]
      parse_loop_acc [of content tag "i + 1" "[slice content b (i + 1)]"] by simp
  ultimately show ?case using sp bs
    by (intro exI [of _ "(b, i + 1) # spans"]) simp
next
  case (dropped start b)
  then obtain spans where sp:
    "parse_loop content tag (b + length (search_prefix tag)) [] = map (\<lambda>(s, e). slice content s e) spans"
    "ordered_spans (b + length (search_prefix tag)) spans"
    "\<forall>(s, e) \<in> set spans. block_span content tag s e" by blast
  from str_index_bound [OF dropped.hyps(1)] have "start \<le> b + length (search_prefix tag)" by simp
  from ordered_spans_mono [OF sp(2) this] sp(1,3) parse_loop_dropped [OF dropped.hyps(1,2), of "[]"]
  show ?case by (intro exI [of _ spans]) simp
qed

lemma block_span_shape:
  assumes "block_span content tag s e"
  defines "b \<equiv> slice content s e"
  shows "prefix ''('' b"
    and "count_list b CHR ''('' = count_list b CHR '')''"
    and "\<And>n. 0 < n \<Longrightarrow> n < length b \<Longrightarrow> count_list (take n b) CHR '')'' < count_list (take n b) CHR ''(''"
    and "tag_open tag \<Longrightarrow> prefix (search_prefix tag) b"
proof -
  from assms(1) have se: "s < e" "e \<le> length content"
    and pre: "prefix (search_prefix tag) (drop s content)"
    and d0: "paren_depth b = 0"
    and pos: "\<And>n. 0 < n \<Longrightarrow> n < e - s \<Longrightarrow> 0 < paren_depth (take n b)"
    by (simp_all add: block_span_def b_def)
  from se have len: "length b = e - s" by (simp add: b_def slice_def)
  from pre obtain r where r: "drop s content = CHR ''('' # r"
    by (auto simp: search_prefix_def prefix_def)
  with se show "prefix ''('' b"
    by (cases "e - s") (simp_all add: b_def slice_def)
  from d0 show "count_list b CHR ''('' = count_list b CHR '')''"
    by (simp add: paren_depth_count)
  show "count_list (take n b) CHR '')'' < count_list (take n b) CHR ''(''"
    if "0 < n" "n < length b" for n
    using pos [of n] that len by (simp add: paren_depth_count)
  show "prefix (search_prefix tag) b" if op: "tag_open tag"
  proof -
    have "length (search_prefix tag) \<le> e - s"
    proof (rule ccontr)
      assume "\<not> length (search_prefix tag) \<le> e - s"
      then have lt: "e - s < Suc (length tag)" by (simp add: search_prefix_def)
      from pre obtain t where t: "drop s content = search_prefix tag @ t"
        by (auto simp: prefix_def)
      have len_sp: "length (search_prefix tag) = Suc (length tag)"
        by (simp add: search_prefix_def)
      from lt have "b = take (e - s) (search_prefix tag)"
        by (simp add: b_def slice_def t len_sp)
      with d0 have "paren_depth (take (e - s) (search_prefix tag)) = 0" by simp
      moreover from op lt se have "paren_depth (take (e - s) (search_prefix tag)) \<noteq> 0"
        by (simp add: tag_open_iff)
      ultimately show False by simp
    qed
    with pre show ?thesis
      by (auto simp: b_def slice_def prefix_def)
  qed
qed

text \<open>
  Claim C9, as the code has it. For every text and tag, the blocks returned are the
  slices of a list of spans that lie within the text, are not empty and follow one another
  from left to right without overlap; every block begins with \<open>(\<close>, has as many \<open>(\<close>
  as \<open>)\<close>, and each of its proper prefixes other than the empty one has more \<open>(\<close> than
  \<open>)\<close>. A block begins with \<open>(\<close> followed by the whole tag when the tag is open in the
  sense of \<open>tag_open\<close>, which every tag without \<open>)\<close> is.
\<close>

theorem parse_blocks_shape:
  "\<exists>spans. parse_s_expression_blocks content tag = map (\<lambda>(s, e). slice content s e) spans
      \<and> ordered_spans 0 spans
      \<and> (\<forall>(s, e) \<in> set spans. e \<le> length content)
      \<and> (\<forall>b \<in> set (parse_s_expression_blocks content tag).
            prefix ''('' b
          \<and> count_list b CHR ''('' = count_list b CHR '')''
          \<and> (\<forall>n. 0 < n \<and> n < length b \<longrightarrow>
                count_list (take n b) CHR '')'' < count_list (take n b) CHR ''('')
          \<and> (tag_open tag \<longrightarrow> prefix (search_prefix tag) b))"
proof -
  from parse_loop_spans [of content tag 0] obtain spans where
    sp: "parse_loop content tag 0 [] = map (\<lambda>(s, e). slice content s e) spans"
    "ordered_spans 0 spans"
    "\<forall>(s, e) \<in> set spans. block_span content tag s e" by blast
  have shape: "prefix ''('' b
          \<and> count_list b CHR ''('' = count_list b CHR '')''
          \<and> (\<forall>n. 0 < n \<and> n < length b \<longrightarrow>
                count_list (take n b) CHR '')'' < count_list (take n b) CHR ''('')
          \<and> (tag_open tag \<longrightarrow> prefix (search_prefix tag) b)"
    if "b \<in> set (parse_s_expression_blocks content tag)" for b
  proof -
    from that sp(1) obtain s e where "(s, e) \<in> set spans" "b = slice content s e"
      by (auto simp: parse_s_expression_blocks_def)
    with sp(3) have "block_span content tag s e" by blast
    from block_span_shape [OF this] \<open>b = slice content s e\<close> show ?thesis by blast
  qed
  from sp(3) have "\<forall>(s, e) \<in> set spans. e \<le> length content"
    by (auto simp: block_span_def)
  with sp(1,2) shape show ?thesis
    by (intro exI [of _ spans]) (simp add: parse_s_expression_blocks_def)
qed

lemma paren_depth_nonneg: "CHR '')'' \<notin> set s \<Longrightarrow> 0 \<le> paren_depth s"
  by (induction s) (auto simp: paren_delta_def)

lemma no_close_tag_open:
  assumes "CHR '')'' \<notin> set tag"
  shows "tag_open tag"
proof -
  have "paren_depth (take n (search_prefix tag)) \<noteq> 0" if "1 \<le> n" for n
  proof -
    from that obtain k where k: "n = Suc k" by (cases n) auto
    from assms have "CHR '')'' \<notin> set (take k tag)" by (auto dest: in_set_takeD)
    from paren_depth_nonneg [OF this] k show ?thesis
      by (simp add: search_prefix_def paren_delta_def)
  qed
  then show ?thesis by (simp add: tag_open_iff)
qed

theorem parse_blocks_shape_witness:
  "tag_open ''a'' \<and>
   parse_s_expression_blocks ''x(a (b))(a(a)'' ''a'' = [''(a (b))'', ''(a)''] \<and>
   prefix ''(a'' ''(a (b))'' \<and> prefix ''(a'' ''(a)''"
  using parse_blocks_shape [of "''x(a (b))(a(a)''" "''a''"]
  by (simp add: parse_s_expression_blocks_def parse_loop.simps str_index_def search_prefix_def
      slice_def tag_open_def paren_delta_def)

text \<open>
  The claim as worded fails twice: for the tag \<open>)x\<close> the scan closes the block inside the
  search token, so the block \<open>()\<close> does not begin with \<open>()x\<close>; and the empty prefix of a
  block never has more \<open>(\<close> than \<open>)\<close>.
\<close>

theorem parse_blocks_shape_counterexample:
  "parse_s_expression_blocks ''()x'' '')x'' = [''()''] \<and>
   \<not> prefix (CHR ''('' # '')x'') ''()'' \<and>
   \<not> count_list (take 0 ''()'') CHR '')'' < count_list (take 0 ''()'') CHR ''(''"
  by (simp add: parse_s_expression_blocks_def parse_loop.simps str_index_def search_prefix_def
      slice_def)



subsection \<open>Blocks that never close\<close>

lemma never_closes_scan_None:
  assumes "\<forall>n. 0 < n \<and> n \<le> length s \<longrightarrow> paren_depth (take n s) \<noteq> 0"
  shows "scan_block s i 0 = None"
  using assms by (simp add: scan_block_None_iff)

lemma scan_None_never_closes:
  assumes "scan_block s i 0 = None"
  shows "\<forall>n. 0 < n \<and> n \<le> length s \<longrightarrow> paren_depth (take n s) \<noteq> 0"
proof (intro allI impI)
  fix n assume n: "0 < n \<and> n \<le> length s"
  then obtain m where m: "n = Suc m" by (cases n) auto
  with n have "m < length s" by simp
  with assms m show "paren_depth (take n s) \<noteq> 0" by (simp add: scan_block_None_iff)
qed

text \<open>
  Claim C6. A round of the loop has located a block at \<open>block_start\<close>, and from there to
  the end of the text the depth counter never returns to zero. Then the round leaves
  \<open>blocks\<close> as it was, so the block is dropped, and the loop goes on with the cursor just
  past the search token. Nothing is raised: \<open>parse_loop\<close> is a total function that returns
  the list of blocks, and the only exception of the source, the \<open>ValueError\<close> of
  \<open>str.index\<close>, is the \<open>None\<close> that ends the loop.
\<close>

theorem unclosed_block_dropped:
  assumes "str_index content (search_prefix tag) start_index = Some block_start"
    and "\<forall>n. 0 < n \<and> n \<le> length (drop block_start content) \<longrightarrow>
           paren_depth (take n (drop block_start content)) \<noteq> 0"
  shows "parse_loop content tag start_index blocks =
           parse_loop content tag (block_start + length (search_prefix tag)) blocks"
  using parse_loop_dropped [OF assms(1) never_closes_scan_None [OF assms(2)]] .

text \<open>
  The first \<open>(footprint\<close> below never closes; the search resumes at index 10 and still
  extracts the block nested in it.
\<close>

theorem unclosed_block_dropped_witness:
  "parse_loop ''(footprint (a (footprint b)'' ''footprint'' 0 [] =
     parse_loop ''(footprint (a (footprint b)'' ''footprint'' 10 [] \<and>
   parse_s_expression_blocks ''(footprint (a (footprint b)'' ''footprint'' = [''(footprint b)'']"
proof -
  let ?c = "''(footprint (a (footprint b)''"
  have idx: "str_index ?c (search_prefix ''footprint'') 0 = Some 0"
    by (simp add: str_index_def search_prefix_def)
  have "scan_block (drop 0 ?c) 0 0 = None" by simp
  from unclosed_block_dropped [OF idx scan_None_never_closes [OF this], of "[]"]
  have "parse_loop ?c ''footprint'' 0 [] =
      parse_loop ?c ''footprint'' (0 + length (search_prefix ''footprint'')) []" .
  moreover have "0 + length (search_prefix ''footprint'') = 10"
    by (simp add: search_prefix_def)
  ultimately have step: "parse_loop ?c ''footprint'' 0 [] = parse_loop ?c ''footprint'' 10 []"
    by (simp only:)
  have "parse_loop ?c ''footprint'' 10 [] = [''(footprint b)'']"
    by (simp add: parse_loop.simps str_index_def search_prefix_def slice_def)
  with step show ?thesis by (simp add: parse_s_expression_blocks_def)
qed

subsection \<open>Well-formed documents\<close>

text \<open>
  \<open>closed_expr tag b\<close>: the text \<open>b\<close> is one parenthesised expression that begins with
  \<open>(tag\<close>: its parentheses balance, and not before its last character.
\<close>

definition closed_expr :: "string \<Rightarrow> string \<Rightarrow> bool" where
  "closed_expr tag b \<longleftrightarrow>
     prefix (search_prefix tag) b \<and> paren_depth b = 0
     \<and> list_all (\<lambda>n. 0 < paren_depth (take n b)) [1..<length b]"

lemma closed_expr_iff:
  "closed_expr tag b \<longleftrightarrow>
     prefix (search_prefix tag) b \<and> paren_depth b = 0
     \<and> (\<forall>n. 0 < n \<and> n < length b \<longrightarrow> 0 < paren_depth (take n b))"
  unfolding closed_expr_def list_all_iff by (auto simp: Suc_le_eq)

lemma closed_expr_scan:
  assumes "closed_expr tag b"
  shows "scan_block (b @ rest) i 0 = Some (i + length b - 1)"
proof -
  from assms have pre: "prefix (search_prefix tag) b" and d0: "paren_depth b = 0"
    and pos: "\<And>n. 0 < n \<Longrightarrow> n < length b \<Longrightarrow> 0 < paren_depth (take n b)"
    by (simp_all add: closed_expr_iff)
  from pre have ne: "b \<noteq> []" by (auto simp: search_prefix_def prefix_def)
  then obtain n where n: "length b = Suc n" by (cases b) auto
  have "paren_depth (take (Suc m) (b @ rest)) \<noteq> 0" if "m < n" for m
    using pos [of "Suc m"] that n by simp
  moreover have "paren_depth (take (Suc n) (b @ rest)) = 0" using d0 n by simp
  ultimately have "scan_block (b @ rest) i 0 = Some (i + n)"
    using n by (auto simp: scan_block_Some_iff)
  with n show ?thesis by simp
qed

lemma gap_then_block_find:
  assumes nog: "\<not> sublist (search_prefix tag) g"
    and tag: "CHR ''('' \<notin> set tag"
    and pre: "prefix (search_prefix tag) b"
  shows "find_sub (search_prefix tag) (g @ b @ rest) = Some (length g)"
proof (rule find_sub_eqI)
  show "length g \<le> length (g @ b @ rest)" by simp
  from pre show "prefix (search_prefix tag) (drop (length g) (g @ b @ rest))"
    by (auto simp: prefix_def)
next
  fix j assume j: "j < length g"
  show "\<not> prefix (search_prefix tag) (drop j (g @ b @ rest))"
  proof
    assume p: "prefix (search_prefix tag) (drop j (g @ b @ rest))"
    let ?sp = "search_prefix tag"
    from j have dj: "drop j (g @ b @ rest) = drop j g @ b @ rest" by simp
    show False
    proof (cases "length ?sp \<le> length (drop j g)")
      case True
      with p dj have "prefix ?sp (drop j g)"
        by (metis prefix_length_prefix prefixI)
      then obtain t where "drop j g = ?sp @ t" by (auto simp: prefix_def)
      then have "g = take j g @ ?sp @ t" by (metis append_take_drop_id)
      with nog show False by (auto simp: sublist_def)
    next
      case False
      let ?k = "length (drop j g)"
      from False have k: "?k < length ?sp" by simp
      from j have k0: "0 < ?k" by simp
      from pre obtain b' where b: "b = CHR ''('' # b'"
        by (auto simp: search_prefix_def prefix_def)
      from p dj obtain t where t: "drop j g @ b @ rest = ?sp @ t" by (auto simp: prefix_def)
      have "(drop j g @ b @ rest) ! ?k = CHR ''(''" using b by (simp add: nth_append)
      with t k have spk: "?sp ! ?k = CHR ''(''" by (simp add: nth_append)
      from k0 obtain m where m: "?k = Suc m" by (cases ?k) auto
      with k have "m < length tag" by (simp add: search_prefix_def)
      moreover from spk m have "tag ! m = CHR ''(''" by (simp add: search_prefix_def)
      ultimately have "CHR ''('' \<in> set tag" by (metis nth_mem)
      with tag show False by simp
    qed
  qed
qed

lemma parse_loop_document:
  assumes tag: "CHR ''('' \<notin> set tag"
    and gbs: "\<forall>(g, b) \<in> set gbs. \<not> sublist (search_prefix tag) g \<and> closed_expr tag b"
    and tail: "\<not> sublist (search_prefix tag) tail"
  shows "parse_loop (pre @ concat (map (\<lambda>(g, b). g @ b) gbs) @ tail) tag (length pre) acc
          = acc @ map snd gbs"
  using gbs
proof (induction gbs arbitrary: pre acc)
  case Nil
  from tail have "find_sub (search_prefix tag) tail = None" by (simp add: find_sub_None_iff)
  then have "str_index (pre @ tail) (search_prefix tag) (length pre) = None"
    by (simp add: str_index_def)
  then show ?case by (simp add: parse_loop_stop)
next
  case (Cons gb gbs)
  obtain g b where gb: "gb = (g, b)" by (cases gb)
  define rest where "rest = concat (map (\<lambda>(g, b). g @ b) gbs) @ tail"
  define content where "content = pre @ g @ b @ rest"
  define p where "p = length pre + length g"
  have content: "pre @ concat (map (\<lambda>(g, b). g @ b) (gb # gbs)) @ tail = content"
    by (simp add: gb content_def rest_def)
  from Cons.prems gb have nog: "\<not> sublist (search_prefix tag) g" and cl: "closed_expr tag b"
    and rest: "\<forall>(g, b) \<in> set gbs. \<not> sublist (search_prefix tag) g \<and> closed_expr tag b"
    by simp_all
  from cl have pre: "prefix (search_prefix tag) b" by (simp add: closed_expr_iff)
  then obtain n where n: "length b = Suc n" by (cases b) (auto simp: search_prefix_def)
  have idx: "str_index content (search_prefix tag) (length pre) = Some p"
    using gap_then_block_find [OF nog tag pre, of rest]
    by (simp add: str_index_def content_def p_def)
  have dr: "drop p content = b @ rest"
    by (simp add: content_def p_def)
  have scan: "scan_block (drop p content) p 0 = Some (p + n)"
    unfolding dr using closed_expr_scan [OF cl, of rest p] n by simp
  have sl: "slice content p (p + n + 1) = b"
    using n by (simp add: slice_def dr)
  have nxt: "p + n + 1 = length (pre @ g @ b)"
    using n by (simp add: p_def)
  from Cons.IH [OF rest, of "pre @ g @ b" "acc @ [b]"]
  have "parse_loop content tag (length (pre @ g @ b)) (acc @ [b]) = (acc @ [b]) @ map snd gbs"
    by (simp add: content_def rest_def)
  with parse_loop_found [OF idx scan, of acc] sl nxt
  have "parse_loop content tag (length pre) acc = (acc @ [b]) @ map snd gbs"
    by (simp only:)
  then show ?case unfolding content by (simp add: gb)
qed

text \<open>
  Claim C1. A document is a sequence of \<open>k\<close> well-formed \<open>(footprint ...)\<close> expressions,
  each after a gap of other text, and a tail; neither the gaps nor the tail contain the
  token \<open>(footprint\<close>. Then the extractor returns exactly these \<open>k\<close> expressions, in
  document order, each beginning with \<open>(footprint\<close> and with as many \<open>(\<close> as \<open>)\<close>.
  Well-formed is read as the spec's invariant of a raw block reads it: balanced
  parentheses, counted character by character.
\<close>

theorem parse_footprints_well_formed:
  assumes "\<forall>(gap, block) \<in> set gbs.
             \<not> sublist ''(footprint'' gap \<and> closed_expr ''footprint'' block"
    and "\<not> sublist ''(footprint'' tail"
  shows "parse_s_expression_blocks (concat (map (\<lambda>(gap, block). gap @ block) gbs) @ tail)
            ''footprint'' = map snd gbs
    \<and> length (parse_s_expression_blocks (concat (map (\<lambda>(gap, block). gap @ block) gbs) @ tail)
            ''footprint'') = length gbs
    \<and> (\<forall>b \<in> set (parse_s_expression_blocks
                     (concat (map (\<lambda>(gap, block). gap @ block) gbs) @ tail) ''footprint'').
          prefix ''(footprint'' b \<and> count_list b CHR ''('' = count_list b CHR '')'')"
proof -
  have sp: "search_prefix ''footprint'' = ''(footprint''" by (simp add: search_prefix_def)
  have tag: "CHR ''('' \<notin> set ''footprint''" by simp
  from parse_loop_document [OF tag, of gbs tail "[]" "[]"] assms
  have res: "parse_s_expression_blocks (concat (map (\<lambda>(gap, block). gap @ block) gbs) @ tail)
            ''footprint'' = map snd gbs"
    by (simp add: sp parse_s_expression_blocks_def)
  have "prefix ''(footprint'' b \<and> count_list b CHR ''('' = count_list b CHR '')''"
    if "b \<in> set (map snd gbs)" for b
  proof -
    from that assms(1) have "closed_expr ''footprint'' b" by auto
    then show ?thesis by (simp add: closed_expr_iff sp paren_depth_count)
  qed
  with res show ?thesis by simp
qed

theorem parse_footprints_well_formed_witness:
  "parse_s_expression_blocks
     ''(kicad_pcb (footprint A (at 1 2)) (net 0) (footprint B (pad (at 0 0)))) ''
     ''footprint'' = [''(footprint A (at 1 2))'', ''(footprint B (pad (at 0 0)))'']"
proof -
  have 1: "\<forall>(gap, block) \<in> set [(''(kicad_pcb '', ''(footprint A (at 1 2))''),
        ('' (net 0) '', ''(footprint B (pad (at 0 0)))'')].
      \<not> sublist ''(footprint'' gap \<and> closed_expr ''footprint'' block"
    by (simp add: closed_expr_def search_prefix_def paren_delta_def upt_rec
        flip: find_sub_None_iff)
  have 2: "\<not> sublist ''(footprint'' '') ''" by (simp flip: find_sub_None_iff)
  from parse_footprints_well_formed [OF 1 2] show ?thesis by simp
qed



section \<open>Field extractor\<close>

text \<open>The exceptions of the script that nothing catches, as values.\<close>

datatype py_error = ValueError | AttributeError | TypeError | UnicodeDecodeError

text \<open>
  \<open>s.replace(old, new, 1)\<close> and \<open>sub in s\<close>. The arguments of \<open>contains\<close> are in the order
  of \<open>s.__contains__(sub)\<close>.
\<close>

definition replace_first :: "string \<Rightarrow> string \<Rightarrow> string \<Rightarrow> string" where
  "replace_first old new s =
     (case find_sub old s of
        None \<Rightarrow> s
      | Some k \<Rightarrow> take k s @ new @ drop (k + length old) s)"

definition contains :: "string \<Rightarrow> string \<Rightarrow> bool" where
  "contains s sub = (find_sub sub s \<noteq> None)"

subsection \<open>The three patterns\<close>

text \<open>
  The character classes of \<open>re\<close> on \<open>str\<close> patterns, for code points below 256: \<open>\s\<close> is
  the Unicode white space there, \<open>\d\<close> the ten ASCII digits, and \<open>[-\d.]\<close> adds \<open>-\<close> and
  \<open>.\<close> to them. \<open>dq\<close> is the double quote.
\<close>

definition dq :: char where
  "dq = CHR 0x22"

definition is_space :: "char \<Rightarrow> bool" where
  "is_space c \<longleftrightarrow>
     c \<in> set [CHR 0x09, CHR 0x0A, CHR 0x0B, CHR 0x0C, CHR 0x0D, CHR 0x1C, CHR 0x1D,
              CHR 0x1E, CHR 0x1F, CHR 0x20, CHR 0x85, CHR 0xA0]"

definition is_digit :: "char \<Rightarrow> bool" where
  "is_digit c \<longleftrightarrow> c \<in> set ''0123456789''"

definition is_num_char :: "char \<Rightarrow> bool" where
  "is_num_char c \<longleftrightarrow> c = CHR ''-'' \<or> is_digit c \<or> c = CHR ''.''"

text \<open>
  A pattern is a function from the text at a candidate position to what it captures there.
  \<open>lit p\<close> matches the literal \<open>p\<close>, \<open>some1 cls\<close> matches \<open>cls+\<close>, and
  \<open>dropWhile cls\<close> skips \<open>cls*\<close>. Every greedy repetition in the three patterns is
  followed by a character outside its class (or by a group that begins with one), so
  backtracking into it never finds a match the longest repetition misses, and the model
  takes the longest one. The optional rotation group of the position pattern is tried
  first, and skipped when it or the closing parenthesis after it fails, as the regex
  engine does.
\<close>

definition lit :: "string \<Rightarrow> string \<Rightarrow> string option" where
  "lit p s = (if prefix p s then Some (drop (length p) s) else None)"

definition some1 :: "(char \<Rightarrow> bool) \<Rightarrow> string \<Rightarrow> (string \<times> string) option" where
  "some1 cls s = (if takeWhile cls s = [] then None else Some (takeWhile cls s, dropWhile cls s))"

definition quoted :: "string \<Rightarrow> string option" where
  "quoted s =
     (case lit [dq] s of
        None \<Rightarrow> None
      | Some s1 \<Rightarrow>
          (case some1 (\<lambda>c. c \<noteq> dq) s1 of
             None \<Rightarrow> None
           | Some (g, s2) \<Rightarrow> (case lit [dq] s2 of None \<Rightarrow> None | Some _ \<Rightarrow> Some g)))"

text \<open>
  \<^verbatim>\<open>\(\s*footprint\s+"([^"]+)"\<close>, \<^verbatim>\<open>\(\s*property\s+"Reference"\s+"([^"]+)"\<close> and
  \<^verbatim>\<open>\(at\s+([-\d.]+)\s+([-\d.]+)(?:\s+([-\d.]+))?\)\<close>. The first two return group 1; the
  third returns group 0 and groups 1 to 3.
\<close>

definition type_pattern :: "string \<Rightarrow> string option" where
  "type_pattern s =
     (case lit ''('' s of
        None \<Rightarrow> None
      | Some s1 \<Rightarrow>
          (case lit ''footprint'' (dropWhile is_space s1) of
             None \<Rightarrow> None
           | Some s2 \<Rightarrow>
               (case some1 is_space s2 of
                  None \<Rightarrow> None
                | Some (_, s3) \<Rightarrow> quoted s3)))"

definition ref_pattern :: "string \<Rightarrow> string option" where
  "ref_pattern s =
     (case lit ''('' s of
        None \<Rightarrow> None
      | Some s1 \<Rightarrow>
          (case lit ''property'' (dropWhile is_space s1) of
             None \<Rightarrow> None
           | Some s2 \<Rightarrow>
               (case some1 is_space s2 of
                  None \<Rightarrow> None
                | Some (_, s3) \<Rightarrow>
                    (case lit (dq # ''Reference'' @ [dq]) s3 of
                       None \<Rightarrow> None
                     | Some s4 \<Rightarrow>
                         (case some1 is_space s4 of
                            None \<Rightarrow> None
                          | Some (_, s5) \<Rightarrow> quoted s5)))))"

definition at_tail :: "string \<Rightarrow> (string \<times> string option) option" where
  "at_tail s =
     (case (case some1 is_space s of
              None \<Rightarrow> None
            | Some (ws, s1) \<Rightarrow>
                (case some1 is_num_char s1 of
                   None \<Rightarrow> None
                 | Some (rot, s2) \<Rightarrow>
                     (case lit '')'' s2 of
                        None \<Rightarrow> None
                      | Some _ \<Rightarrow> Some (ws @ rot @ '')'', Some rot)))) of
        Some r \<Rightarrow> Some r
      | None \<Rightarrow> (case lit '')'' s of None \<Rightarrow> None | Some _ \<Rightarrow> Some ('')'', None)))"

definition at_pattern :: "string \<Rightarrow> (string \<times> string \<times> string \<times> string option) option" where
  "at_pattern s =
     (case lit ''(at'' s of
        None \<Rightarrow> None
      | Some s1 \<Rightarrow>
          (case some1 is_space s1 of
             None \<Rightarrow> None
           | Some (ws1, s2) \<Rightarrow>
               (case some1 is_num_char s2 of
                  None \<Rightarrow> None
                | Some (gx, s3) \<Rightarrow>
                    (case some1 is_space s3 of
                       None \<Rightarrow> None
                     | Some (ws2, s4) \<Rightarrow>
                         (case some1 is_num_char s4 of
                            None \<Rightarrow> None
                          | Some (gy, s5) \<Rightarrow>
                              (case at_tail s5 of
                                 None \<Rightarrow> None
                               | Some (tl_text, grot) \<Rightarrow>
                                   Some (''(at'' @ ws1 @ gx @ ws2 @ gy @ tl_text, gx, gy, grot)))))))"

text \<open>\<open>re.search\<close>: the match at the leftmost position that has one.\<close>

fun re_search :: "(string \<Rightarrow> 'a option) \<Rightarrow> string \<Rightarrow> 'a option" where
  "re_search pat [] = pat []"
| "re_search pat (c # cs) =
     (case pat (c # cs) of Some m \<Rightarrow> Some m | None \<Rightarrow> re_search pat cs)"

subsection \<open>Numbers\<close>

text \<open>
  \<open>float(tok)\<close> for a token over \<open>[-\d.]\<close>: it succeeds on an optional \<open>-\<close> followed by
  digits with at most one \<open>.\<close> among them, and raises \<open>ValueError\<close> otherwise. The float
  is kept as the literal that denotes it: the script never computes with these floats, it
  only prints the rotation of a display back through \<open>str\<close>.
\<close>

datatype pyfloat = PyFloat string

definition float_literal :: "string \<Rightarrow> bool" where
  "float_literal tok =
     (let body = (case tok of c # cs \<Rightarrow> if c = CHR ''-'' then cs else tok | [] \<Rightarrow> tok);
          ip = takeWhile is_digit body;
          r = dropWhile is_digit body
      in case r of
           [] \<Rightarrow> ip \<noteq> []
         | c # fp \<Rightarrow> c = CHR ''.'' \<and> list_all is_digit fp \<and> (ip \<noteq> [] \<or> fp \<noteq> []))"

definition py_float :: "string \<Rightarrow> py_error + pyfloat" where
  "py_float tok = (if float_literal tok then Inr (PyFloat tok) else Inl ValueError)"

subsection \<open>Component records\<close>

text \<open>
  The dictionary that \<open>get_footprint_details\<close> returns; \<open>footprint_type\<close>, \<open>x_pos\<close> and
  \<open>y_pos\<close> are its keys \<open>type\<close>, \<open>x\<close> and \<open>y\<close>. The values of the dictionary display
  are evaluated in the order written, so the first \<open>float\<close> that fails decides the error.
\<close>

record component =
  footprint_type :: "string option"
  reference :: "string option"
  x_pos :: "pyfloat option"
  y_pos :: "pyfloat option"
  rotation :: "pyfloat option"
  at_string :: "string option"
  original_string :: string

definition get_footprint_details :: "string \<Rightarrow> py_error + component" where
  "get_footprint_details footprint_str =
     (let footprint_type = re_search type_pattern footprint_str;
          reference = re_search ref_pattern footprint_str
      in case re_search at_pattern footprint_str of
           None \<Rightarrow>
             Inr \<lparr>footprint_type = footprint_type, reference = reference, x_pos = None,
                  y_pos = None, rotation = None, at_string = None,
                  original_string = footprint_str\<rparr>
         | Some (at_text, gx, gy, grot) \<Rightarrow>
             (case py_float gx of
                Inl e \<Rightarrow> Inl e
              | Inr xv \<Rightarrow>
                  (case py_float gy of
                     Inl e \<Rightarrow> Inl e
                   | Inr yv \<Rightarrow>
                       (case grot of
                          None \<Rightarrow>
                            Inr \<lparr>footprint_type = footprint_type, reference = reference,
                                 x_pos = Some xv, y_pos = Some yv, rotation = None,
                                 at_string = Some at_text, original_string = footprint_str\<rparr>
                        | Some gr \<Rightarrow>
                            (case py_float gr of
                               Inl e \<Rightarrow> Inl e
                             | Inr rv \<Rightarrow>
                                 Inr \<lparr>footprint_type = footprint_type, reference = reference,
                                      x_pos = Some xv, y_pos = Some yv, rotation = Some rv,
                                      at_string = Some at_text,
                                      original_string = footprint_str\<rparr>)))))"


section \<open>Filter and sort\<close>

text \<open>
  The sort key \<open>int(re.search(r'\d+', reference).group())\<close>: \<open>re.search\<close> returns
  \<open>None\<close> on a reference without a digit, and \<open>.group()\<close> on it raises
  \<open>AttributeError\<close>; on a reference that is \<open>None\<close> it raises \<open>TypeError\<close>. \<open>py_int\<close> is
  \<open>int\<close> on a run of decimal digits: since Python 3.11 it raises \<open>ValueError\<close> on more
  digits than \<open>sys.get_int_max_str_digits()\<close>, which is 4300 unless the interpreter is
  started otherwise; leading zeros count.
\<close>

definition digit_value :: "char \<Rightarrow> nat" where
  "digit_value c = of_char c - 48"

definition int_of_digits :: "string \<Rightarrow> int" where
  "int_of_digits ds = int (foldl (\<lambda>n c. 10 * n + digit_value c) 0 ds)"

definition first_digits :: "string \<Rightarrow> string" where
  "first_digits s = takeWhile is_digit (dropWhile (\<lambda>c. \<not> is_digit c) s)"

definition int_max_str_digits :: nat where
  "int_max_str_digits = 4300"

definition py_int :: "string \<Rightarrow> py_error + int" where
  "py_int ds =
     (if int_max_str_digits < length ds then Inl ValueError else Inr (int_of_digits ds))"

definition reference_number :: "component \<Rightarrow> py_error + int" where
  "reference_number c =
     (case reference c of
        None \<Rightarrow> Inl TypeError
      | Some r \<Rightarrow>
          if first_digits r = [] then Inl AttributeError
          else py_int (first_digits r))"

text \<open>
  \<open>sorted(cs, key=...)\<close>: the keys are computed first, in list order, and the first
  exception among them is the result; the sort is stable.
\<close>

fun keyed :: "('a \<Rightarrow> py_error + int) \<Rightarrow> 'a list \<Rightarrow> py_error + (int \<times> 'a) list" where
  "keyed key [] = Inr []"
| "keyed key (c # cs) =
     (case key c of
        Inl e \<Rightarrow> Inl e
      | Inr k \<Rightarrow> (case keyed key cs of Inl e \<Rightarrow> Inl e | Inr ps \<Rightarrow> Inr ((k, c) # ps)))"

definition sorted_by :: "('a \<Rightarrow> py_error + int) \<Rightarrow> 'a list \<Rightarrow> py_error + 'a list" where
  "sorted_by key cs =
     (case keyed key cs of Inl e \<Rightarrow> Inl e | Inr ps \<Rightarrow> Inr (map snd (sort_key fst ps)))"

text \<open>
  The filter \<open>c['reference'] and c['reference'].startswith(prefix)\<close>: a reference that is
  \<open>None\<close> or empty is falsy.
\<close>

definition in_group :: "string \<Rightarrow> component \<Rightarrow> bool" where
  "in_group pfx c = (case reference c of None \<Rightarrow> False | Some r \<Rightarrow> r \<noteq> [] \<and> prefix pfx r)"

definition sort_components :: "component list \<Rightarrow> string \<Rightarrow> py_error + component list" where
  "sort_components components pfx = sorted_by reference_number (filter (in_group pfx) components)"


section \<open>Placement driver\<close>

subsection \<open>Coordinates and formatting\<close>

text \<open>
  The layout constants and the displacement table all have one decimal place, and so has
  every coordinate the script computes from them. They are modelled exactly, as integer
  counts of tenths. Python computes them in binary floating point: its rounding error
  stays many orders of magnitude below the fourth decimal place that \<open>:.4f\<close> prints, so
  the printed text is the same. \<open>fixed places v\<close> is \<open>f"{v:.{places}f}"\<close> for
  \<open>places \<ge> 1\<close>, \<open>str_nat\<close> and \<open>str_int\<close> are \<open>str\<close> on integers and \<open>ljust 8 s\<close> is
  \<open>f"{s:<8}"\<close>. \<open>digit_char\<close> is only ever applied to a number below ten.
\<close>

definition digit_char :: "nat \<Rightarrow> char" where
  "digit_char d = ''0123456789'' ! (d mod 10)"

fun str_nat :: "nat \<Rightarrow> string" where
  "str_nat n = (if n < 10 then [digit_char n] else str_nat (n div 10) @ [digit_char (n mod 10)])"

declare str_nat.simps [simp del]

definition str_int :: "int \<Rightarrow> string" where
  "str_int v = (if v < 0 then CHR ''-'' # str_nat (nat (- v)) else str_nat (nat v))"

type_synonym tenths = int

definition fixed :: "nat \<Rightarrow> tenths \<Rightarrow> string" where
  "fixed places v =
     (if v < 0 then ''-'' else []) @ str_nat (nat (\<bar>v\<bar> div 10)) @ ''.''
       @ take places (digit_char (nat (\<bar>v\<bar> mod 10)) # replicate (places - 1) CHR ''0'')"

definition ljust :: "nat \<Rightarrow> string \<Rightarrow> string" where
  "ljust width s = s @ replicate (width - length s) CHR '' ''"

definition start_x :: tenths where "start_x = 57"
definition start_y :: tenths where "start_y = 1991"
definition spacing :: tenths where "spacing = 114"

definition resistor_relative_coords :: "(tenths \<times> tenths \<times> int) list" where
  "resistor_relative_coords =
     [(- 57, - 40, 90), (- 57, - 14, 90), (- 57, 12, - 90),
      (- 57, 38, - 90), (- 57, 65, - 90), (- 57, - 92, 90),
      (- 57, - 66, 90), (- 25, - 110, 0), (15, - 110, 0),
      (39, - 110, 0), (13, 109, 0), (- 10, 109, 0),
      (- 33, 109, 0), (- 57, 92, - 190), (37, 109, 180)]"

subsection \<open>Substitution\<close>

text \<open>
  \<open>at_text\<close> is \<open>f"(at {x:.4f} {y:.4f}{rot_str})"\<close>. \<open>substitute\<close> is the guarded pair of
  \<open>replace\<close> calls that both loops share; \<open>None\<close> says that the guard failed and
  \<open>modified_content\<close> stays as it is.
\<close>

definition at_text :: "tenths \<Rightarrow> tenths \<Rightarrow> string \<Rightarrow> string" where
  "at_text new_x new_y rot_str = ''(at '' @ fixed 4 new_x @ '' '' @ fixed 4 new_y @ rot_str @ '')''"

definition substitute :: "string \<Rightarrow> component \<Rightarrow> string \<Rightarrow> string option" where
  "substitute modified_content c new_at_str =
     (case at_string c of
        None \<Rightarrow> None
      | Some a \<Rightarrow>
          if a \<noteq> [] \<and> contains modified_content (original_string c)
          then Some (replace_first (original_string c)
                       (replace_first a (''    '' @ new_at_str) (original_string c))
                       modified_content)
          else None)"

subsection \<open>The two loops\<close>

text \<open>
  Console output is the list of the strings printed, in order. The line of a placed
  display formats its reference with \<open>:<8\<close>, which raises \<open>TypeError\<close> on \<open>None\<close>.
  \<open>float_str\<close> is Python's \<open>str\<close> on floats, a parameter of the model.
\<close>

definition placed_line :: "component \<Rightarrow> tenths \<Rightarrow> py_error + string" where
  "placed_line display new_display_x =
     (case reference display of
        None \<Rightarrow> Inl TypeError
      | Some r \<Rightarrow> Inr (''Placed '' @ ljust 8 r @ '' at X='' @ fixed 2 new_display_x))"

definition no_slot_line :: "component \<Rightarrow> string" where
  "no_slot_line resistor =
     ''Warning: Not enough relative coordinates for ''
       @ (case reference resistor of None \<Rightarrow> ''None'' | Some r \<Rightarrow> r)"

fun place_resistors ::
  "tenths \<Rightarrow> tenths \<Rightarrow> nat \<Rightarrow> component list \<Rightarrow> string \<times> string list \<Rightarrow> string \<times> string list"
where
  "place_resistors new_display_x new_display_y j [] st = st"
| "place_resistors new_display_x new_display_y j (resistor # rest) (modified_content, out) =
     (if length resistor_relative_coords \<le> j
      then place_resistors new_display_x new_display_y (Suc j) rest
             (modified_content, out @ [no_slot_line resistor])
      else
        (case resistor_relative_coords ! j of
           (rel_x, rel_y, rel_rot) \<Rightarrow>
             place_resistors new_display_x new_display_y (Suc j) rest
               (case substitute modified_content resistor
                       (at_text (new_display_x + rel_x) (new_display_y + rel_y)
                          ('' '' @ str_int rel_rot)) of
                  Some modified_content' \<Rightarrow> (modified_content', out)
                | None \<Rightarrow> (modified_content, out))))"

fun place_displays ::
  "(pyfloat \<Rightarrow> string) \<Rightarrow> component list \<Rightarrow> nat \<Rightarrow> component list \<Rightarrow> string \<times> string list
     \<Rightarrow> py_error + string \<times> string list"
where
  "place_displays float_str resistors i [] st = Inr st"
| "place_displays float_str resistors i (display # rest) (modified_content, out) =
     (let new_display_x = start_x + int i * spacing;
          new_display_y = start_y;
          rot_str = (case rotation display of None \<Rightarrow> [] | Some r \<Rightarrow> '' '' @ float_str r);
          new_at_str = at_text new_display_x new_display_y rot_str;
          current_display_resistors = slice resistors (i * 15) (i * 15 + 15)
      in case substitute modified_content display new_at_str of
           None \<Rightarrow>
             place_displays float_str resistors (Suc i) rest
               (place_resistors new_display_x new_display_y 0 current_display_resistors
                  (modified_content, out))
         | Some modified_content' \<Rightarrow>
             (case placed_line display new_display_x of
                Inl e \<Rightarrow> Inl e
              | Inr line \<Rightarrow>
                  place_displays float_str resistors (Suc i) rest
                    (place_resistors new_display_x new_display_y 0 current_display_resistors
                       (modified_content', out @ [line]))))"

subsection \<open>The two files\<close>

text \<open>
  Both files are opened in text mode, with \<open>encoding='utf-8'\<close> and no \<open>newline\<close> argument.
  \<open>Display.kicad_pcb\<close> is missing (\<open>FileNotFoundError\<close>, which \<open>main\<close> catches), or its
  bytes are no UTF-8 (\<open>UnicodeDecodeError\<close>, which nothing catches), or it holds a text,
  the characters its bytes decode to. \<open>f.read()\<close> returns that text with universal
  newlines: every CR LF and every other CR has become LF. \<open>f.write(s)\<close> stores \<open>s\<close> with
  every LF turned into \<open>os.linesep\<close>, which is LF or CR LF according to the platform and a
  parameter of the model; \<open>write_newlines linesep s\<close> is the text the output file then
  holds. Other failures of the operating system (no permission, a full disk) are outside
  the model.
\<close>

datatype text_file = Missing | Undecodable | Holds string

fun universal_newlines :: "string \<Rightarrow> string" where
  "universal_newlines [] = []"
| "universal_newlines [c] = [if c = CHR 0x0D then CHR 0x0A else c]"
| "universal_newlines (c # d # s) =
     (if c = CHR 0x0D \<and> d = CHR 0x0A then CHR 0x0A # universal_newlines s
      else if c = CHR 0x0D then CHR 0x0A # universal_newlines (d # s)
      else c # universal_newlines (d # s))"

definition write_newlines :: "string \<Rightarrow> string \<Rightarrow> string" where
  "write_newlines linesep s = concat (map (\<lambda>c. if c = CHR 0x0A then linesep else [c]) s)"

subsection \<open>The run\<close>

text \<open>
  \<open>main\<close> in three parts: the list comprehension over \<open>get_footprint_details\<close>, the two
  filtered and sorted groups, and everything from the first \<open>print\<close> on. Its arguments are
  \<open>str\<close> on floats, \<open>os.linesep\<close> and the state of \<open>Display.kicad_pcb\<close>; its result is the
  console output and the text that \<open>Display_modified.kicad_pcb\<close> holds afterwards, if the
  script has written it.
\<close>

fun details_of_all :: "string list \<Rightarrow> py_error + component list" where
  "details_of_all [] = Inr []"
| "details_of_all (fp # fps) =
     (case get_footprint_details fp of
        Inl e \<Rightarrow> Inl e
      | Inr c \<Rightarrow> (case details_of_all fps of Inl e \<Rightarrow> Inl e | Inr cs \<Rightarrow> Inr (c # cs)))"

definition is_display :: "component \<Rightarrow> bool" where
  "is_display c \<longleftrightarrow> footprint_type c = Some ''External_Parts:ACPSC04-41SEKWA''"

definition is_resistor :: "component \<Rightarrow> bool" where
  "is_resistor c \<longleftrightarrow>
     contains (case footprint_type c of None \<Rightarrow> ''None'' | Some t \<Rightarrow> t) ''Resistor_SMD''"

definition displays_and_resistors ::
  "string list \<Rightarrow> py_error + component list \<times> component list" where
  "displays_and_resistors footprint_strings =
     (case details_of_all footprint_strings of
        Inl e \<Rightarrow> Inl e
      | Inr all_components \<Rightarrow>
          (case sort_components (filter is_display all_components) ''SEGD'' of
             Inl e \<Rightarrow> Inl e
           | Inr displays \<Rightarrow>
               (case sort_components (filter is_resistor all_components) ''R'' of
                  Inl e \<Rightarrow> Inl e
                | Inr resistors \<Rightarrow> Inr (displays, resistors))))"

definition place_all ::
  "(pyfloat \<Rightarrow> string) \<Rightarrow> string \<Rightarrow> string \<Rightarrow> component list \<Rightarrow> component list
     \<Rightarrow> py_error + string list \<times> string option" where
  "place_all float_str linesep original_content displays resistors =
     (let out = [''Found '' @ str_nat (length displays) @ '' displays to process.'',
                 ''Found '' @ str_nat (length resistors) @ '' resistors to process.'']
      in if displays = []
         then Inr (out @ [''Error: No displays with the specified footprint ''
                            @ [CHR 0x27] @ ''External_Parts:ACPSC04-41SEKWA'' @ [CHR 0x27]
                            @ '' were found.''], None)
         else
           (let out = out @
                  (if length resistors < length displays * 15
                   then [''Warning: Found '' @ str_nat (length resistors)
                           @ '' resistors, but expected at least ''
                           @ str_nat (length displays * 15) @ ''.'']
                   else [])
            in case place_displays float_str resistors 0 displays (original_content, out) of
                 Inl e \<Rightarrow> Inl e
               | Inr (modified_content, out) \<Rightarrow>
                   Inr (out @ [CHR 0x0A # ''Processing complete. The modified file has been saved as ''
                              @ [CHR 0x27] @ ''Display_modified.kicad_pcb'' @ [CHR 0x27]],
                        Some (write_newlines linesep modified_content))))"

definition main ::
  "(pyfloat \<Rightarrow> string) \<Rightarrow> string \<Rightarrow> text_file \<Rightarrow> py_error + string list \<times> string option" where
  "main float_str linesep input_file =
     (case input_file of
        Missing \<Rightarrow>
          Inr ([''Error: The file '' @ [CHR 0x27] @ ''Display.kicad_pcb'' @ [CHR 0x27]
                  @ '' was not found.'',
                ''Please make sure the script is in the same directory as your KiCad file.''],
               None)
      | Undecodable \<Rightarrow> Inl UnicodeDecodeError
      | Holds file_text \<Rightarrow>
          (let original_content = universal_newlines file_text;
               footprint_strings = parse_s_expression_blocks original_content ''footprint''
           in if footprint_strings = []
              then Inr ([''Could not parse any footprints from the file. Please check the file format.''],
                        None)
              else
                (case displays_and_resistors footprint_strings of
                   Inl e \<Rightarrow> Inl e
                 | Inr (displays, resistors) \<Rightarrow>
                     place_all float_str linesep original_content displays resistors)))"



section \<open>Properties of the field extractor\<close>

lemmas pattern_defs = at_pattern_def at_tail_def type_pattern_def ref_pattern_def quoted_def
  lit_def some1_def is_space_def is_num_char_def is_digit_def dq_def

text \<open>
  Claim C5 says that \<open>get_footprint_details\<close> returns a record for every block string and
  never throws. It does not: the position pattern accepts the token \<open>1.2.3\<close>, which
  \<open>float\<close> rejects, and the \<open>ValueError\<close> leaves the function. The source guards each
  field against a pattern that does not match, and leaves out a token that matches and is
  no number.
\<close>

theorem details_raises_on_bad_number:
  \<open>get_footprint_details ''(footprint "R_0603" (property "Reference" "R280") (at 1.2.3 4))''
     = Inl ValueError\<close>
  by (simp add: get_footprint_details_def pattern_defs py_float_def float_literal_def)

text \<open>The two examples of the claim hold on blocks whose numbers are well formed.\<close>

lemma details_reference_example:
  \<open>map_sum id reference
     (get_footprint_details ''(footprint "R_0603" (property "Reference" "R280") (at 1 2))'')
     = Inr (Some ''R280'')
   \<and> map_sum id reference (get_footprint_details ''(footprint "R_0603" (at 1 2))'') = Inr None\<close>
  by (simp add: get_footprint_details_def pattern_defs py_float_def float_literal_def)

text \<open>
  Claim C10. In every record that \<open>get_footprint_details\<close> returns, \<open>x\<close> is null exactly
  when \<open>y\<close> is, and exactly when the anchor \<open>at_string\<close> is; and the rotation is non-null
  only when \<open>x\<close> and \<open>y\<close> are non-null.
\<close>

theorem details_null_pattern:
  assumes "get_footprint_details footprint_str = Inr r"
  shows "(x_pos r = None \<longleftrightarrow> y_pos r = None)
       \<and> (y_pos r = None \<longleftrightarrow> at_string r = None)
       \<and> (rotation r \<noteq> None \<longrightarrow> x_pos r \<noteq> None \<and> y_pos r \<noteq> None)"
  using assms
  by (auto simp: get_footprint_details_def Let_def split: option.splits sum.splits prod.splits)

theorem details_null_pattern_witness:
  "\<exists>r. get_footprint_details ''(footprint (at 1 2 90))'' = Inr r
      \<and> rotation r \<noteq> None \<and> x_pos r \<noteq> None \<and> y_pos r \<noteq> None \<and> at_string r \<noteq> None"
proof -
  obtain r where r: "get_footprint_details ''(footprint (at 1 2 90))'' = Inr r"
    "rotation r \<noteq> None"
    by (simp add: get_footprint_details_def pattern_defs py_float_def float_literal_def)
  from details_null_pattern [OF r(1)] r show ?thesis by blast
qed

section \<open>Properties of the sort\<close>

text \<open>
  The sort key as the spec words it: the integer value of the first run of decimal digits
  of the reference (and 0 for a record without reference, which the filter never keeps).
\<close>

definition reference_key :: "component \<Rightarrow> int" where
  "reference_key c =
     (case reference c of None \<Rightarrow> 0 | Some r \<Rightarrow> int_of_digits (first_digits r))"

lemma keyed_total:
  assumes "\<forall>c \<in> set cs. key c = Inr (f c)"
  shows "keyed key cs = Inr (map (\<lambda>c. (f c, c)) cs)"
  using assms by (induction cs) simp_all

lemma keyed_error:
  assumes "keyed key cs = Inr ps"
  shows "\<forall>c \<in> set cs. \<exists>k. key c = Inr k"
  using assms by (induction cs arbitrary: ps) (auto split: sum.splits)

lemma insort_key_pairs:
  "map snd (insort_key fst (f x, x) (map (\<lambda>c. (f c, c)) cs))
     = insort_key f x (map snd (map (\<lambda>c. (f c, c)) cs))"
  by (induction cs) simp_all

lemma sort_key_pairs_aux:
  "\<exists>ys. sort_key fst (map (\<lambda>c. (f c, c)) cs) = map (\<lambda>c. (f c, c)) ys \<and> ys = sort_key f cs"
proof (induction cs)
  case Nil
  show ?case by simp
next
  case (Cons c cs)
  then obtain ys where ys: "sort_key fst (map (\<lambda>c. (f c, c)) cs) = map (\<lambda>c. (f c, c)) ys"
    "ys = sort_key f cs" by blast
  have "insort_key fst (f c, c) (map (\<lambda>c. (f c, c)) ys) = map (\<lambda>c. (f c, c)) (insort_key f c ys)"
    by (induction ys) simp_all
  with ys show ?case by simp
qed

lemma sort_key_pairs:
  "map snd (sort_key fst (map (\<lambda>c. (f c, c)) cs)) = sort_key f cs"
proof -
  from sort_key_pairs_aux [of f cs]
  have "sort_key fst (map (\<lambda>c. (f c, c)) cs) = map (\<lambda>c. (f c, c)) (sort_key f cs)" by simp
  then show ?thesis by (simp add: comp_def)
qed

lemma sorted_by_total:
  assumes "\<forall>c \<in> set cs. key c = Inr (f c)"
  shows "sorted_by key cs = Inr (sort_key f cs)"
  by (simp add: sorted_by_def keyed_total [OF assms] sort_key_pairs)

lemma first_digits_nonempty:
  "(\<exists>ch \<in> set r. is_digit ch) \<Longrightarrow> first_digits r \<noteq> []"
proof -
  assume "\<exists>ch \<in> set r. is_digit ch"
  then have "dropWhile (\<lambda>c. \<not> is_digit c) r \<noteq> []" by auto
  then obtain d ds where d: "dropWhile (\<lambda>c. \<not> is_digit c) r = d # ds"
    by (cases "dropWhile (\<lambda>c. \<not> is_digit c) r") auto
  from hd_dropWhile [of "\<lambda>c. \<not> is_digit c" r] d have "is_digit d" by auto
  with d show ?thesis by (simp add: first_digits_def)
qed

lemma sort_components_total:
  assumes "\<forall>c \<in> set components. \<forall>r. reference c = Some r \<and> r \<noteq> [] \<and> prefix pfx r
             \<longrightarrow> (\<exists>ch \<in> set r. is_digit ch) \<and> length (first_digits r) \<le> int_max_str_digits"
  shows "sort_components components pfx
           = Inr (sort_key reference_key (filter (in_group pfx) components))"
proof -
  have "reference_number c = Inr (reference_key c)"
    if "c \<in> set (filter (in_group pfx) components)" for c
  proof -
    from that obtain r where r: "reference c = Some r" "r \<noteq> []" "prefix pfx r"
      and c: "c \<in> set components"
      by (auto simp: in_group_def split: option.splits)
    with assms have d: "\<exists>ch \<in> set r. is_digit ch"
      and l: "length (first_digits r) \<le> int_max_str_digits" by blast+
    from first_digits_nonempty [OF d] l r(1) show ?thesis
      by (simp add: reference_number_def reference_key_def py_int_def)
  qed
  then show ?thesis
    by (simp add: sort_components_def sorted_by_total)
qed

text \<open>
  Claim C4 says that \<open>sort_components\<close> returns, for every list of records and every
  prefix, the records whose reference is non-null and starts with the prefix, in the order
  of their numbers. It does not when such a reference has no digit: \<open>re.search\<close> then
  returns \<open>None\<close>, \<open>.group()\<close> raises \<open>AttributeError\<close>, and no list is returned. The filter
  of the source guards against a reference that is missing, and the key function leaves
  out a reference that is there and holds no number.
\<close>

theorem sort_components_raises_without_digit:
  "sort_components
     [\<lparr>footprint_type = None, reference = Some ''RX'', x_pos = None, y_pos = None,
       rotation = None, at_string = None, original_string = []\<rparr>] ''R''
     = Inl AttributeError"
  by (simp add: sort_components_def sorted_by_def in_group_def reference_number_def
      first_digits_def is_digit_def)

text \<open>
  Where every kept reference holds a number that \<open>int\<close> converts, the function does what
  the claim says: it returns exactly the records whose reference is non-null, not empty
  and starts with the prefix (each as often as the input does), in ascending order of the
  integer value of the first run of digits of the reference, records of equal value in
  the order of the input. The example of the claim is such a list: \<open>R2, R10, R1\<close> come
  out as \<open>R1, R2, R10\<close>.
\<close>

lemma sort_components_sorted:
  assumes "\<forall>c \<in> set components. \<forall>r. reference c = Some r \<and> r \<noteq> [] \<and> prefix pfx r
             \<longrightarrow> (\<exists>ch \<in> set r. is_digit ch) \<and> length (first_digits r) \<le> int_max_str_digits"
  shows "\<exists>res. sort_components components pfx = Inr res
      \<and> mset res = mset (filter (\<lambda>c. case reference c of None \<Rightarrow> False
                                        | Some r \<Rightarrow> r \<noteq> [] \<and> prefix pfx r) components)
      \<and> sorted (map reference_key res)
      \<and> (\<forall>k. filter (\<lambda>c. reference_key c = k) res
             = filter (\<lambda>c. reference_key c = k)
                 (filter (\<lambda>c. case reference c of None \<Rightarrow> False
                                | Some r \<Rightarrow> r \<noteq> [] \<and> prefix pfx r) components))"
proof -
  have g: "in_group pfx = (\<lambda>c. case reference c of None \<Rightarrow> False
                                | Some r \<Rightarrow> r \<noteq> [] \<and> prefix pfx r)"
    by (rule ext) (simp add: in_group_def)
  show ?thesis
    unfolding sort_components_total [OF assms] g
    by (simp add: sort_key_stable)
qed

lemma sort_components_example:
  "map_sum id (map reference)
     (sort_components
        (map (\<lambda>r. \<lparr>footprint_type = None, reference = Some r, x_pos = None, y_pos = None,
                    rotation = None, at_string = None, original_string = []\<rparr>)
           [''R2'', ''R10'', ''R1''])
        ''R'')
   = Inr [Some ''R1'', Some ''R2'', Some ''R10'']"
  by (simp add: sort_components_def sorted_by_def in_group_def reference_number_def
      first_digits_def is_digit_def int_of_digits_def digit_value_def py_int_def
      int_max_str_digits_def)

text \<open>
  Two more inputs on which no such list comes back. A number of more than 4300 digits
  makes \<open>int\<close> raise \<open>ValueError\<close>. And with the empty prefix a record whose reference is the
  empty string is dropped, since the filter tests the reference for truth before the
  prefix; \<open>main\<close> passes neither the empty prefix nor an empty reference.
\<close>

lemma sort_components_long_number:
  "sort_components
     [\<lparr>footprint_type = None, reference = Some (CHR ''R'' # replicate 4301 CHR ''1''),
       x_pos = None, y_pos = None, rotation = None, at_string = None,
       original_string = []\<rparr>] ''R''
     = Inl ValueError"
proof -
  have "first_digits (CHR ''R'' # replicate 4301 CHR ''1'') = replicate 4301 CHR ''1''"
    by (simp add: first_digits_def is_digit_def takeWhile_replicate)
  then show ?thesis
    by (simp add: sort_components_def sorted_by_def in_group_def reference_number_def
        py_int_def int_max_str_digits_def)
qed

lemma sort_components_empty_reference:
  "sort_components
     [\<lparr>footprint_type = None, reference = Some [], x_pos = None, y_pos = None,
       rotation = None, at_string = None, original_string = []\<rparr>] []
     = Inr []"
  by (simp add: sort_components_def sorted_by_def in_group_def)



section \<open>Properties of the placement driver\<close>

subsection \<open>The layout as the spec words it\<close>

text \<open>
  The spec describes the placement by index: the display at sorted index \<open>i\<close> goes to
  \<open>(start_x + i * spacing, start_y)\<close> and keeps its rotation; the \<open>j\<close>-th resistor of its
  slice, which is resistor \<open>15 * i + j\<close> of the sorted list, goes to the display's position
  plus the \<open>j\<close>-th displacement and takes the \<open>j\<close>-th rotation of the table.
  \<open>spec_display_at\<close> and \<open>spec_resistor_at\<close> are the position fields this gives, and
  \<open>spec_placements\<close> lists who receives which, in the order of processing. They follow the
  spec's words and are compared with the loops of the source below. \<open>apply_sub\<close> is one
  guarded substitution, as a step on the document.
\<close>

definition apply_sub :: "string \<Rightarrow> component \<times> string \<Rightarrow> string" where
  "apply_sub doc p = (case substitute doc (fst p) (snd p) of Some doc' \<Rightarrow> doc' | None \<Rightarrow> doc)"

definition spec_display_at :: "(pyfloat \<Rightarrow> string) \<Rightarrow> nat \<Rightarrow> component \<Rightarrow> string" where
  "spec_display_at float_str i display =
     at_text (start_x + int i * spacing) start_y
       (case rotation display of None \<Rightarrow> [] | Some r \<Rightarrow> '' '' @ float_str r)"

definition spec_resistor_at :: "nat \<Rightarrow> nat \<Rightarrow> string" where
  "spec_resistor_at i j =
     (case resistor_relative_coords ! j of
        (dx, dy, rot) \<Rightarrow>
          at_text (start_x + int i * spacing + dx) (start_y + dy) ('' '' @ str_int rot))"

definition spec_placements ::
  "(pyfloat \<Rightarrow> string) \<Rightarrow> component list \<Rightarrow> component list \<Rightarrow> (component \<times> string) list" where
  "spec_placements float_str displays resistors =
     concat (map (\<lambda>i. (displays ! i, spec_display_at float_str i (displays ! i))
                       # map (\<lambda>j. (resistors ! (i * 15 + j), spec_resistor_at i j))
                           [0..<min 15 (length resistors - i * 15)])
               [0..<length displays])"

subsection \<open>The loops against the layout\<close>

lemma table_length: "length resistor_relative_coords = 15"
  by (simp add: resistor_relative_coords_def)

lemma place_resistors_eq:
  "place_resistors nx ny j cur (doc, out) =
     (foldl apply_sub doc
        (map (\<lambda>(k, r). (r, case resistor_relative_coords ! k of
                             (dx, dy, rot) \<Rightarrow> at_text (nx + dx) (ny + dy) ('' '' @ str_int rot)))
           (zip [j..<15] cur)),
      out @ map no_slot_line (drop (15 - j) cur))"
proof (induction cur arbitrary: j doc out)
  case Nil
  show ?case by simp
next
  case (Cons r rest)
  show ?case
  proof (cases "15 \<le> j")
    case True
    with Cons.IH [of "Suc j" doc "out @ [no_slot_line r]"] show ?thesis
      by (simp add: table_length)
  next
    case False
    then have upt: "[j..<15] = j # [Suc j..<15]" by (simp add: upt_conv_Cons)
    from False have "15 - j = Suc (15 - Suc j)" by arith
    then have dr: "drop (15 - j) (r # rest) = drop (15 - Suc j) rest"
      by (simp only: drop_Suc_Cons)
    obtain dx dy rot where t: "resistor_relative_coords ! j = (dx, dy, rot)"
      by (cases "resistor_relative_coords ! j") auto
    show ?thesis
    proof (cases "substitute doc r (at_text (nx + dx) (ny + dy) ('' '' @ str_int rot))")
      case None
      with False t Cons.IH [of "Suc j" doc out] show ?thesis
        unfolding upt dr by (simp add: table_length apply_sub_def)
    next
      case (Some doc')
      with False t Cons.IH [of "Suc j" doc' out] show ?thesis
        unfolding upt dr by (simp add: table_length apply_sub_def)
    qed
  qed
qed


text \<open>The placements of the displays from index \<open>i\<close> on, by recursion as the loop runs.\<close>

fun plan_from ::
  "(pyfloat \<Rightarrow> string) \<Rightarrow> component list \<Rightarrow> nat \<Rightarrow> component list \<Rightarrow> (component \<times> string) list"
where
  "plan_from float_str resistors i [] = []"
| "plan_from float_str resistors i (d # rest) =
     (d, spec_display_at float_str i d)
       # map (\<lambda>(j, r). (r, spec_resistor_at i j))
           (zip [0..<15] (slice resistors (i * 15) (i * 15 + 15)))
       @ plan_from float_str resistors (Suc i) rest"

lemma slice_15_length: "length (slice rs (i * 15) (i * 15 + 15)) = min 15 (length rs - i * 15)"
  by (simp add: slice_def min_def)

lemma place_displays_eq:
  assumes "\<forall>d \<in> set ds. reference d \<noteq> None"
  shows "\<exists>lines. place_displays float_str rs i ds (doc, out)
            = Inr (foldl apply_sub doc (plan_from float_str rs i ds), out @ lines)
          \<and> (\<forall>l \<in> set lines. prefix ''Placed '' l)"
  using assms
proof (induction ds arbitrary: i doc out)
  case Nil
  show ?case by simp
next
  case (Cons d rest)
  let ?nx = "start_x + int i * spacing"
  let ?cur = "slice rs (i * 15) (i * 15 + 15)"
  let ?at = "spec_display_at float_str i d"
  let ?rplan = "map (\<lambda>(j, r). (r, spec_resistor_at i j)) (zip [0..<15] ?cur)"
  from Cons.prems obtain r where r: "reference d = Some r" by auto
  from Cons.prems have rest: "\<forall>d \<in> set rest. reference d \<noteq> None" by simp
  have nodrop: "drop (15 - 0) ?cur = []" by (simp add: slice_def)
  have res: "place_resistors ?nx start_y 0 ?cur (doc', out') = (foldl apply_sub doc' ?rplan, out')"
    for doc' out'
    unfolding place_resistors_eq nodrop
    by (simp add: spec_resistor_at_def add.assoc split_def)
  show ?case
  proof (cases "substitute doc d ?at")
    case None
    from Cons.IH [OF rest, of "Suc i" "foldl apply_sub doc ?rplan" out]
    obtain lines where l: "place_displays float_str rs (Suc i) rest (foldl apply_sub doc ?rplan, out)
        = Inr (foldl apply_sub (foldl apply_sub doc ?rplan) (plan_from float_str rs (Suc i) rest),
               out @ lines)" "\<forall>l \<in> set lines. prefix ''Placed '' l" by blast
    from None have "place_displays float_str rs i (d # rest) (doc, out)
        = place_displays float_str rs (Suc i) rest (foldl apply_sub doc ?rplan, out)"
      by (simp add: Let_def res spec_display_at_def)
    moreover from None have "apply_sub doc (d, ?at) = doc" by (simp add: apply_sub_def)
    ultimately show ?thesis using l
      by (intro exI [of _ lines]) (simp del: place_displays.simps)
  next
    case (Some doc')
    let ?line = "''Placed '' @ ljust 8 r @ '' at X='' @ fixed 2 ?nx"
    from Cons.IH [OF rest, of "Suc i" "foldl apply_sub doc' ?rplan" "out @ [?line]"]
    obtain lines where l: "place_displays float_str rs (Suc i) rest
          (foldl apply_sub doc' ?rplan, out @ [?line])
        = Inr (foldl apply_sub (foldl apply_sub doc' ?rplan) (plan_from float_str rs (Suc i) rest),
               (out @ [?line]) @ lines)" "\<forall>l \<in> set lines. prefix ''Placed '' l" by blast
    from Some r have "place_displays float_str rs i (d # rest) (doc, out)
        = place_displays float_str rs (Suc i) rest (foldl apply_sub doc' ?rplan, out @ [?line])"
      by (simp add: Let_def res spec_display_at_def placed_line_def)
    moreover from Some have "apply_sub doc (d, ?at) = doc'" by (simp add: apply_sub_def)
    ultimately show ?thesis using l
      by (intro exI [of _ "?line # lines"]) (simp del: place_displays.simps)
  qed
qed

lemma zip_slice_15:
  "map (\<lambda>(j, r). (r, f j)) (zip [0..<15] (slice rs (i * 15) (i * 15 + 15)))
     = map (\<lambda>j. (rs ! (i * 15 + j), f j)) [0..<min 15 (length rs - i * 15)]"
proof (rule nth_equalityI)
  show "length (map (\<lambda>(j, r). (r, f j)) (zip [0..<15] (slice rs (i * 15) (i * 15 + 15))))
      = length (map (\<lambda>j. (rs ! (i * 15 + j), f j)) [0..<min 15 (length rs - i * 15)])"
    by (simp add: slice_15_length)
next
  fix k assume "k < length (map (\<lambda>(j, r). (r, f j)) (zip [0..<15] (slice rs (i * 15) (i * 15 + 15))))"
  then have k: "k < 15" "k < length rs - i * 15" by (simp_all add: slice_15_length)
  then show "map (\<lambda>(j, r). (r, f j)) (zip [0..<15] (slice rs (i * 15) (i * 15 + 15))) ! k
      = map (\<lambda>j. (rs ! (i * 15 + j), f j)) [0..<min 15 (length rs - i * 15)] ! k"
    by (simp add: slice_15_length slice_def)
qed

lemma plan_from_drop:
  "i \<le> length ds \<Longrightarrow>
   plan_from float_str rs i (drop i ds)
     = concat (map (\<lambda>i. (ds ! i, spec_display_at float_str i (ds ! i))
                       # map (\<lambda>j. (rs ! (i * 15 + j), spec_resistor_at i j))
                           [0..<min 15 (length rs - i * 15)])
               [i..<length ds])"
proof (induction "length ds - i" arbitrary: i)
  case 0
  then show ?case by simp
next
  case (Suc n)
  then have i: "i < length ds" by simp
  then have dr: "drop i ds = ds ! i # drop (Suc i) ds" by (simp add: Cons_nth_drop_Suc)
  from i have upt: "[i..<length ds] = i # [Suc i..<length ds]" by (simp add: upt_conv_Cons)
  from Suc.hyps(2) i have "n = length ds - Suc i" by simp
  from Suc.hyps(1) [OF this] i show ?case
    unfolding dr upt by (simp add: zip_slice_15)
qed

lemma plan_from_spec: "plan_from float_str rs 0 ds = spec_placements float_str ds rs"
  using plan_from_drop [of 0 ds float_str rs] by (simp add: spec_placements_def)


lemma keyed_snd: "keyed key cs = Inr ps \<Longrightarrow> map snd ps = cs"
  by (induction cs arbitrary: ps) (auto split: sum.splits)

lemma sorted_by_set: "sorted_by key cs = Inr res \<Longrightarrow> set res = set cs"
proof -
  assume "sorted_by key cs = Inr res"
  then obtain ps where ps: "keyed key cs = Inr ps" "res = map snd (sort_key fst ps)"
    by (auto simp: sorted_by_def split: sum.splits)
  have "set (map snd (sort_key fst ps)) = set (map snd ps)" by simp
  with ps keyed_snd [OF ps(1)] show ?thesis by simp
qed

lemma sort_components_kept:
  assumes "sort_components components pfx = Inr res" "c \<in> set res"
  shows "c \<in> set components" and "\<exists>r. reference c = Some r \<and> r \<noteq> [] \<and> prefix pfx r"
proof -
  from sorted_by_set [OF assms(1) [unfolded sort_components_def]] assms(2)
  have c: "c \<in> set components" "in_group pfx c" by auto
  then show "c \<in> set components" by simp
  from c(2) show "\<exists>r. reference c = Some r \<and> r \<noteq> [] \<and> prefix pfx r"
    by (auto simp: in_group_def split: option.splits)
qed

text \<open>The fixed lines of the console output.\<close>

definition found_lines :: "component list \<Rightarrow> component list \<Rightarrow> string list" where
  "found_lines displays resistors =
     [''Found '' @ str_nat (length displays) @ '' displays to process.'',
      ''Found '' @ str_nat (length resistors) @ '' resistors to process.'']"

definition shortage_line :: "component list \<Rightarrow> component list \<Rightarrow> string" where
  "shortage_line displays resistors =
     ''Warning: Found '' @ str_nat (length resistors) @ '' resistors, but expected at least ''
       @ str_nat (length displays * 15) @ ''.''"

definition complete_line :: string where
  "complete_line = CHR 0x0A # ''Processing complete. The modified file has been saved as ''
       @ [CHR 0x27] @ ''Display_modified.kicad_pcb'' @ [CHR 0x27]"

lemma main_run:
  assumes run: "displays_and_resistors
                  (parse_s_expression_blocks (universal_newlines file_text) ''footprint'')
                  = Inr (ds, rs)"
    and ne: "ds \<noteq> []"
  shows "\<exists>lines. main float_str linesep (Holds file_text)
            = Inr (found_lines ds rs
                     @ (if length rs < length ds * 15 then [shortage_line ds rs] else [])
                     @ lines @ [complete_line],
                   Some (write_newlines linesep
                           (foldl apply_sub (universal_newlines file_text)
                              (spec_placements float_str ds rs))))
          \<and> (\<forall>l \<in> set lines. prefix ''Placed '' l)"
proof -
  define content where "content = universal_newlines file_text"
  note run' = run [folded content_def]
  have blocks: "parse_s_expression_blocks content ''footprint'' \<noteq> []"
  proof
    assume "parse_s_expression_blocks content ''footprint'' = []"
    with run' have "ds = []"
      by (simp add: displays_and_resistors_def sort_components_def sorted_by_def)
    with ne show False by simp
  qed
  from run' obtain cs where "sort_components (filter is_display cs) ''SEGD'' = Inr ds"
    by (auto simp: displays_and_resistors_def split: sum.splits)
  from sort_components_kept(2) [OF this] have "\<forall>d \<in> set ds. reference d \<noteq> None" by auto
  from place_displays_eq [OF this, of float_str rs 0 content
      "found_lines ds rs @ (if length rs < length ds * 15 then [shortage_line ds rs] else [])"]
  obtain lines where l: "place_displays float_str rs 0 ds
        (content, found_lines ds rs @ (if length rs < length ds * 15 then [shortage_line ds rs] else []))
      = Inr (foldl apply_sub content (plan_from float_str rs 0 ds),
             (found_lines ds rs @ (if length rs < length ds * 15 then [shortage_line ds rs] else []))
               @ lines)"
    "\<forall>l \<in> set lines. prefix ''Placed '' l" by blast
  have pa: "place_all float_str linesep content ds rs
      = Inr (found_lines ds rs
               @ (if length rs < length ds * 15 then [shortage_line ds rs] else [])
               @ lines @ [complete_line],
             Some (write_newlines linesep
                     (foldl apply_sub content (spec_placements float_str ds rs))))"
  proof (cases "length rs < length ds * 15")
    case True
    with ne l(1) show ?thesis
      by (simp add: place_all_def Let_def found_lines_def shortage_line_def
          complete_line_def plan_from_spec del: place_displays.simps)
  next
    case False
    with ne l(1) show ?thesis
      by (simp add: place_all_def Let_def found_lines_def shortage_line_def
          complete_line_def plan_from_spec del: place_displays.simps)
  qed
  have "main float_str linesep (Holds file_text)
      = Inr (found_lines ds rs
               @ (if length rs < length ds * 15 then [shortage_line ds rs] else [])
               @ lines @ [complete_line],
             Some (write_newlines linesep
                     (foldl apply_sub content (spec_placements float_str ds rs))))"
    using blocks run' by (simp add: main_def Let_def pa content_def [symmetric])
  with l(2) show ?thesis unfolding content_def by blast
qed

text \<open>
  A text without CR is read as it is, and on a platform whose line separator is LF a text
  is written as it is.
\<close>

lemma universal_newlines_id: "CHR 0x0D \<notin> set s \<Longrightarrow> universal_newlines s = s"
  by (induction s rule: universal_newlines.induct) auto

lemma universal_newlines_no_cr: "CHR 0x0D \<notin> set (universal_newlines s)"
  by (induction s rule: universal_newlines.induct) auto

lemma write_newlines_id: "write_newlines [CHR 0x0A] s = s"
  by (induction s) (simp_all add: write_newlines_def)



subsection \<open>A small board\<close>

text \<open>
  One display and one resistor, the two groups the script finds in them, and the board
  after placement when \<open>str\<close> prints the rotation \<open>90\<close> of the display as \<open>90.0\<close>.
\<close>

definition example_board :: string where
  \<open>example_board = ''(footprint "External_Parts:ACPSC04-41SEKWA" (at 1 2 90) (property "Reference" "SEGD1"))
 (footprint "Resistor_SMD:R" (property "Reference" "R2") (at 3 4))''\<close>

definition example_display :: component where
  \<open>example_display =
     \<lparr>footprint_type = Some ''External_Parts:ACPSC04-41SEKWA'', reference = Some ''SEGD1'',
      x_pos = Some (PyFloat ''1''), y_pos = Some (PyFloat ''2''), rotation = Some (PyFloat ''90''),
      at_string = Some ''(at 1 2 90)'',
      original_string = ''(footprint "External_Parts:ACPSC04-41SEKWA" (at 1 2 90) (property "Reference" "SEGD1"))''\<rparr>\<close>

definition example_resistor :: component where
  \<open>example_resistor =
     \<lparr>footprint_type = Some ''Resistor_SMD:R'', reference = Some ''R2'',
      x_pos = Some (PyFloat ''3''), y_pos = Some (PyFloat ''4''), rotation = None,
      at_string = Some ''(at 3 4)'',
      original_string = ''(footprint "Resistor_SMD:R" (property "Reference" "R2") (at 3 4))''\<rparr>\<close>

definition example_board_placed :: string where
  \<open>example_board_placed = ''(footprint "External_Parts:ACPSC04-41SEKWA"     (at 5.7000 199.1000 90.0) (property "Reference" "SEGD1"))
 (footprint "Resistor_SMD:R" (property "Reference" "R2")     (at 0.0000 195.1000 90))''\<close>

lemma example_read: "universal_newlines example_board = example_board"
  by (rule universal_newlines_id) (simp add: example_board_def)

lemma example_run:
  "displays_and_resistors
     (parse_s_expression_blocks (universal_newlines example_board) ''footprint'')
     = Inr ([example_display], [example_resistor])"
  unfolding example_read by code_simp

lemma example_placed:
  "write_newlines [CHR 0x0A]
     (foldl apply_sub (universal_newlines example_board)
        (spec_placements (\<lambda>f. ''90.0'') [example_display] [example_resistor]))
   = example_board_placed"
  unfolding example_read write_newlines_id by code_simp


subsection \<open>Positions\<close>

text \<open>
  Claim C2. In every run that reaches the placement, with the displays and resistors the
  script has found in the text it has read, the document written is that text after the
  guarded substitutions of \<open>spec_placements\<close>, in order: the display at sorted index \<open>i\<close> receives the position field
  of \<open>(start_x + i * spacing, start_y)\<close> with the rotation of its own record, and the
  \<open>j\<close>-th resistor of its slice the position field of that position plus the \<open>j\<close>-th
  displacement, with the \<open>j\<close>-th rotation of the table in place of its own. At index 2 the
  display receives \<open>(28.5, 199.1)\<close>, and its first resistor \<open>(22.8, 195.1)\<close> with rotation
  \<open>90\<close>.
\<close>

theorem placement_follows_layout:
  assumes "displays_and_resistors
             (parse_s_expression_blocks (universal_newlines file_text) ''footprint'')
             = Inr (displays, resistors)"
    and "displays \<noteq> []"
  shows "(\<exists>out. main float_str linesep (Holds file_text)
            = Inr (out, Some (write_newlines linesep
                                (foldl apply_sub (universal_newlines file_text)
                                   (spec_placements float_str displays resistors)))))
       \<and> spec_display_at float_str 2 d
            = ''(at 28.5000 199.1000''
                @ (case rotation d of None \<Rightarrow> [] | Some r \<Rightarrow> '' '' @ float_str r) @ '')''
       \<and> spec_resistor_at 2 0 = ''(at 22.8000 195.1000 90)''"
proof -
  from main_run [OF assms, of float_str linesep]
  have "\<exists>out. main float_str linesep (Holds file_text)
            = Inr (out, Some (write_newlines linesep
                                (foldl apply_sub (universal_newlines file_text)
                                   (spec_placements float_str displays resistors))))"
    by blast
  moreover have "fixed 4 (start_x + int 2 * spacing) = ''28.5000''" "fixed 4 start_y = ''199.1000''"
    by code_simp+
  then have "spec_display_at float_str 2 d
            = ''(at 28.5000 199.1000''
                @ (case rotation d of None \<Rightarrow> [] | Some r \<Rightarrow> '' '' @ float_str r) @ '')''"
    by (simp add: spec_display_at_def at_text_def)
  moreover have "spec_resistor_at 2 0 = ''(at 22.8000 195.1000 90)''"
    by code_simp
  ultimately show ?thesis by blast
qed

theorem placement_follows_layout_witness:
  "\<exists>out. main (\<lambda>f. ''90.0'') [CHR 0x0A] (Holds example_board)
            = Inr (out, Some example_board_placed)"
proof -
  have ne: "[example_display] \<noteq> []" by simp
  from placement_follows_layout [OF example_run ne, of "\<lambda>f. ''90.0''" "[CHR 0x0A]"]
  show ?thesis unfolding example_placed by simp
qed

subsection \<open>Short slices\<close>

lemma short_slice_shortage:
  assumes "i < length displays" "length (slice resistors (i * 15) (i * 15 + 15)) < 15"
  shows "length resistors < length displays * 15"
proof -
  from assms(2) have "length resistors - i * 15 < 15" by (simp add: slice_15_length)
  moreover from assms(1) have "i * 15 + 15 \<le> length displays * 15" by simp
  ultimately show ?thesis by linarith
qed

text \<open>
  Claim C8. Take a run that reaches the placement and a display \<open>i\<close> whose slice holds
  fewer than 15 resistors. The run raises nothing and writes the document of the layout,
  the text it has read after the substitutions of \<open>spec_placements\<close>;
  the console output holds the warning that resistors are missing, and no warning about a
  resistor without displacement slot; display \<open>i\<close> is among the placements with its new
  position; and every slice is paired with the leading slots of the table, in order, so
  the slots beyond a short slice go unused. The inner loop on its own, on a slice of any
  length, prints one warning for each resistor beyond the fifteenth, which has no slot.
\<close>

theorem short_slice_placed:
  assumes "displays_and_resistors
             (parse_s_expression_blocks (universal_newlines file_text) ''footprint'')
             = Inr (displays, resistors)"
    and "i < length displays"
    and "length (slice resistors (i * 15) (i * 15 + 15)) < 15"
  shows "\<exists>out. main float_str linesep (Holds file_text)
            = Inr (out, Some (write_newlines linesep
                                (foldl apply_sub (universal_newlines file_text)
                                   (spec_placements float_str displays resistors))))
       \<and> shortage_line displays resistors \<in> set out
       \<and> (\<forall>l \<in> set out. \<not> prefix ''Warning: Not enough relative coordinates'' l)
       \<and> (displays ! i, spec_display_at float_str i (displays ! i))
            \<in> set (spec_placements float_str displays resistors)
       \<and> spec_placements float_str displays resistors
            = concat (map (\<lambda>k. (displays ! k, spec_display_at float_str k (displays ! k))
                              # map (\<lambda>(j, r). (r, spec_resistor_at k j))
                                  (zip [0..<15] (slice resistors (k * 15) (k * 15 + 15))))
                        [0..<length displays])
       \<and> snd (place_resistors nx ny 0 cur (doc0, out0)) = out0 @ map no_slot_line (drop 15 cur)"
proof -
  from assms(2) have ne: "displays \<noteq> []" by auto
  have zipped: "spec_placements float_str displays resistors
            = concat (map (\<lambda>k. (displays ! k, spec_display_at float_str k (displays ! k))
                              # map (\<lambda>(j, r). (r, spec_resistor_at k j))
                                  (zip [0..<15] (slice resistors (k * 15) (k * 15 + 15))))
                        [0..<length displays])"
    by (simp add: spec_placements_def zip_slice_15)
  have warned: "snd (place_resistors nx ny 0 cur (doc0, out0))
      = out0 @ map no_slot_line (drop 15 cur)"
    by (simp add: place_resistors_eq)
  let ?doc = "write_newlines linesep
      (foldl apply_sub (universal_newlines file_text)
         (spec_placements float_str displays resistors))"
  from main_run [OF assms(1) ne, of float_str linesep] obtain lines where
    m: "main float_str linesep (Holds file_text)
      = Inr (found_lines displays resistors
               @ (if length resistors < length displays * 15
                  then [shortage_line displays resistors] else [])
               @ lines @ [complete_line],
             Some ?doc)"
    and l: "\<forall>l \<in> set lines. prefix ''Placed '' l" by blast
  let ?out = "found_lines displays resistors @ [shortage_line displays resistors]
      @ lines @ [complete_line]"
  from short_slice_shortage [OF assms(2,3)] m
  have m': "main float_str linesep (Holds file_text) = Inr (?out, Some ?doc)"
    by simp
  have "\<not> prefix ''Warning: Not enough relative coordinates'' l" if "l \<in> set ?out" for l
  proof -
    from that consider "l \<in> set (found_lines displays resistors)"
      | "l = shortage_line displays resistors" | "l \<in> set lines" | "l = complete_line"
      by auto
    then show ?thesis
    proof cases
      case 1
      then show ?thesis by (auto simp: found_lines_def)
    next
      case 2
      then show ?thesis by (simp add: shortage_line_def)
    next
      case 3
      with l have "prefix ''Placed '' l" by blast
      then show ?thesis by (auto simp: prefix_def)
    next
      case 4
      then show ?thesis by (simp add: complete_line_def)
    qed
  qed
  moreover have "(displays ! i, spec_display_at float_str i (displays ! i))
            \<in> set (spec_placements float_str displays resistors)"
    using assms(2) by (auto simp: spec_placements_def intro!: bexI [of _ i])
  ultimately show ?thesis using m' zipped warned by (intro exI [of _ ?out]) simp
qed

theorem short_slice_placed_witness:
  "\<exists>out. main (\<lambda>f. ''90.0'') [CHR 0x0A] (Holds example_board)
            = Inr (out, Some example_board_placed)
      \<and> ''Warning: Found 1 resistors, but expected at least 15.'' \<in> set out"
proof -
  have i: "0 < length [example_display]" by simp
  have short: "length (slice [example_resistor] (0 * 15) (0 * 15 + 15)) < 15"
    by (simp add: slice_def)
  have line: "shortage_line [example_display] [example_resistor]
      = ''Warning: Found 1 resistors, but expected at least 15.''"
    by code_simp
  from short_slice_placed [OF example_run i short, of "\<lambda>f. ''90.0''" "[CHR 0x0A]"]
  show ?thesis unfolding example_placed line by blast
qed


subsection \<open>Frame\<close>

text \<open>
  \<open>first_occurrence sub s pre post\<close>: \<open>s\<close> is \<open>pre @ sub @ post\<close>, and \<open>sub\<close> occurs nowhere
  further left in \<open>s\<close>. \<open>substituted plan doc doc'\<close> is the substitution mechanics as the
  spec words them, for a list of records, each with the position field it is to receive:
  the records are taken in order, one step for each. A record without anchor, or whose
  verbatim block does not occur in the document accumulated so far, or whose anchor does
  not occur in its block, leaves the document as it is. For any other record the first
  occurrence of its block in the accumulated document and the first occurrence of its
  anchor in that block are found, and four spaces and the new position field are put in
  the place of that one occurrence of the anchor; everything before and after it stays.
\<close>

definition first_occurrence :: "string \<Rightarrow> string \<Rightarrow> string \<Rightarrow> string \<Rightarrow> bool" where
  "first_occurrence sub s pre post \<longleftrightarrow>
     s = pre @ sub @ post
     \<and> (\<forall>pre' post'. s = pre' @ sub @ post' \<longrightarrow> length pre \<le> length pre')"

inductive substituted :: "(component \<times> string) list \<Rightarrow> string \<Rightarrow> string \<Rightarrow> bool" where
  finished: "substituted [] doc doc"
| refused:
    "at_string c = None \<or> at_string c = Some [] \<or> \<not> sublist (original_string c) doc \<Longrightarrow>
     substituted plan doc doc' \<Longrightarrow>
     substituted ((c, t) # plan) doc doc'"
| absent:
    "at_string c = Some a \<Longrightarrow> \<not> sublist a (original_string c) \<Longrightarrow>
     substituted plan doc doc' \<Longrightarrow>
     substituted ((c, t) # plan) doc doc'"
| replaced:
    "at_string c = Some a \<Longrightarrow> a \<noteq> [] \<Longrightarrow>
     first_occurrence (original_string c) doc pre post \<Longrightarrow>
     first_occurrence a (original_string c) bpre bpost \<Longrightarrow>
     substituted plan (pre @ bpre @ ''    '' @ t @ bpost @ post) doc' \<Longrightarrow>
     substituted ((c, t) # plan) doc doc'"

lemma find_sub_first_occurrence:
  assumes "find_sub sub s = Some k"
  shows "first_occurrence sub s (take k s) (drop (k + length sub) s)"
proof -
  from find_sub_bound [OF assms] have k: "k \<le> length s" by simp
  from find_sub_Some_prefix [OF assms] obtain t where t: "drop k s = sub @ t"
    by (auto simp: prefix_def)
  then have "drop (length sub) (drop k s) = t" by simp
  then have t': "t = drop (k + length sub) s" by (simp add: add.commute)
  have "s = take k s @ drop k s" by simp
  with t t' have eq: "s = take k s @ sub @ drop (k + length sub) s" by simp
  have "length (take k s) \<le> length pre'" if "s = pre' @ sub @ post'" for pre' post'
  proof (rule ccontr)
    assume "\<not> length (take k s) \<le> length pre'"
    with k have "length pre' < k" by simp
    from find_sub_Some_first [OF assms this] that show False by simp
  qed
  with eq show ?thesis unfolding first_occurrence_def by blast
qed

lemma first_occurrence_find:
  assumes "first_occurrence sub s pre post"
  shows "find_sub sub s = Some (length pre)"
proof (rule find_sub_eqI)
  from assms have s: "s = pre @ sub @ post" by (simp add: first_occurrence_def)
  then show "length pre \<le> length s" by simp
  from s show "prefix sub (drop (length pre) s)" by simp
  fix j assume j: "j < length pre"
  show "\<not> prefix sub (drop j s)"
  proof
    assume "prefix sub (drop j s)"
    then obtain r where "drop j s = sub @ r" by (auto simp: prefix_def)
    then have "s = take j s @ sub @ r" by (metis append_take_drop_id)
    with assms have "length pre \<le> length (take j s)"
      unfolding first_occurrence_def by blast
    with j show False by simp
  qed
qed

lemma replace_first_occurrence:
  assumes "first_occurrence sub s pre post"
  shows "replace_first sub new s = pre @ new @ post"
proof -
  from assms have s: "s = pre @ sub @ post" by (simp add: first_occurrence_def)
  from first_occurrence_find [OF assms] s show ?thesis
    by (simp add: replace_first_def)
qed

lemma substitute_cases:
  assumes "substitute doc c new = Some doc'"
  shows "\<exists>a. at_string c = Some a \<and> a \<noteq> [] \<and>
    ((\<not> sublist a (original_string c) \<and> doc' = doc) \<or>
     (\<exists>pre post bpre bpost.
         first_occurrence (original_string c) doc pre post
       \<and> first_occurrence a (original_string c) bpre bpost
       \<and> doc' = pre @ bpre @ ''    '' @ new @ bpost @ post))"
proof -
  from assms obtain a k where a: "at_string c = Some a" "a \<noteq> []"
    and k: "find_sub (original_string c) doc = Some k"
    and d: "doc' = replace_first (original_string c)
                     (replace_first a (''    '' @ new) (original_string c)) doc"
    by (auto simp: substitute_def contains_def split: option.splits if_splits)
  let ?o = "original_string c"
  from find_sub_first_occurrence [OF k]
  have fo: "first_occurrence ?o doc (take k doc) (drop (k + length ?o) doc)" .
  show ?thesis
  proof (cases "find_sub a ?o")
    case None
    then have "replace_first a (''    '' @ new) ?o = ?o" by (simp add: replace_first_def)
    with d k fo have "doc' = doc" by (simp add: replace_first_def first_occurrence_def)
    moreover from None have "\<not> sublist a ?o" by (simp add: find_sub_None_iff)
    ultimately show ?thesis using a by blast
  next
    case (Some m)
    from find_sub_first_occurrence [OF Some]
    have fa: "first_occurrence a ?o (take m ?o) (drop (m + length a) ?o)" .
    from d k Some have "doc' = take k doc @ take m ?o @ ''    '' @ new
        @ drop (m + length a) ?o @ drop (k + length ?o) doc"
      by (simp add: replace_first_def)
    with a fo fa show ?thesis by blast
  qed
qed

lemma substitute_refused:
  assumes "substitute doc c new = None"
  shows "at_string c = None \<or> at_string c = Some [] \<or> \<not> sublist (original_string c) doc"
  using assms
  by (auto simp: substitute_def contains_def find_sub_None_iff split: option.splits if_splits)

text \<open>
  The chain of guarded substitutions of the source is the one chain that the mechanics
  allow: the relation holds of it and of nothing else.
\<close>

lemma substituted_foldl: "substituted plan doc (foldl apply_sub doc plan)"
proof (induction plan arbitrary: doc)
  case Nil
  show ?case by (simp add: substituted.finished)
next
  case (Cons p plan)
  obtain c t where p: "p = (c, t)" by (cases p)
  show ?case
  proof (cases "substitute doc c t")
    case None
    then have step: "apply_sub doc p = doc" by (simp add: apply_sub_def p)
    from substituted.refused [OF substitute_refused [OF None] Cons.IH [of doc]] step p
    show ?thesis by simp
  next
    case (Some doc1)
    then have step: "apply_sub doc p = doc1" by (simp add: apply_sub_def p)
    from substitute_cases [OF Some] obtain a where a: "at_string c = Some a" "a \<noteq> []"
      and alt: "(\<not> sublist a (original_string c) \<and> doc1 = doc) \<or>
         (\<exists>pre post bpre bpost.
             first_occurrence (original_string c) doc pre post
           \<and> first_occurrence a (original_string c) bpre bpost
           \<and> doc1 = pre @ bpre @ ''    '' @ t @ bpost @ post)" by blast
    from alt show ?thesis
    proof
      assume n: "\<not> sublist a (original_string c) \<and> doc1 = doc"
      with substituted.absent [OF a(1) _ Cons.IH [of doc], of t] step p
      show ?thesis by simp
    next
      assume "\<exists>pre post bpre bpost.
             first_occurrence (original_string c) doc pre post
           \<and> first_occurrence a (original_string c) bpre bpost
           \<and> doc1 = pre @ bpre @ ''    '' @ t @ bpost @ post"
      then obtain pre post bpre bpost where
        fo: "first_occurrence (original_string c) doc pre post"
        and fa: "first_occurrence a (original_string c) bpre bpost"
        and d: "doc1 = pre @ bpre @ ''    '' @ t @ bpost @ post" by blast
      from substituted.replaced [OF a fo fa Cons.IH [of "pre @ bpre @ ''    '' @ t @ bpost @ post"]]
        step p d
      show ?thesis by simp
    qed
  qed
qed

lemma replace_first_same: "replace_first sub sub s = s"
proof (cases "find_sub sub s")
  case None
  then show ?thesis by (simp add: replace_first_def)
next
  case (Some k)
  from find_sub_first_occurrence [OF Some] have "s = take k s @ sub @ drop (k + length sub) s"
    by (simp add: first_occurrence_def)
  with Some show ?thesis by (simp add: replace_first_def)
qed

lemma substituted_unique:
  "substituted plan doc doc' \<Longrightarrow> doc' = foldl apply_sub doc plan"
proof (induction rule: substituted.induct)
  case (finished doc)
  show ?case by simp
next
  case (refused c doc plan doc' t)
  from refused.hyps(1) have "substitute doc c t = None"
    by (auto simp: substitute_def contains_def find_sub_None_iff split: option.splits)
  with refused.IH show ?case by (simp add: apply_sub_def)
next
  case (absent c a plan doc doc' t)
  from absent.hyps(2) have n: "find_sub a (original_string c) = None"
    by (simp add: find_sub_None_iff)
  then have "replace_first a (''    '' @ t) (original_string c) = original_string c"
    by (simp add: replace_first_def)
  with absent.hyps(1) have "apply_sub doc (c, t) = doc"
    by (simp add: apply_sub_def substitute_def replace_first_same)
  with absent.IH show ?case by simp
next
  case (replaced c a doc pre post bpre bpost plan t doc')
  from replaced.hyps(3) have "sublist (original_string c) doc"
    by (auto simp: first_occurrence_def sublist_def)
  then have "contains doc (original_string c)"
    by (simp add: contains_def find_sub_None_iff)
  with replaced.hyps(1,2)
  have "apply_sub doc (c, t) = pre @ bpre @ ''    '' @ t @ bpost @ post"
    by (simp add: apply_sub_def substitute_def
        replace_first_occurrence [OF replaced.hyps(3)]
        replace_first_occurrence [OF replaced.hyps(4)])
  with replaced.IH show ?case by simp
qed

lemma spec_placements_members:
  assumes "p \<in> set (spec_placements float_str displays resistors)"
  shows "fst p \<in> set displays \<union> set resistors \<and> (\<exists>nx ny rot. snd p = at_text nx ny rot)"
proof -
  from assms obtain i where i: "i < length displays"
    and pin: "p \<in> set ((displays ! i, spec_display_at float_str i (displays ! i))
        # map (\<lambda>j. (resistors ! (i * 15 + j), spec_resistor_at i j))
            [0..<min 15 (length resistors - i * 15)])"
    unfolding spec_placements_def by auto
  then have p: "p = (displays ! i, spec_display_at float_str i (displays ! i))
        \<or> (\<exists>j < min 15 (length resistors - i * 15).
              p = (resistors ! (i * 15 + j), spec_resistor_at i j))"
    by auto
  from p show ?thesis
  proof
    assume "p = (displays ! i, spec_display_at float_str i (displays ! i))"
    with i show ?thesis by (auto simp: spec_display_at_def)
  next
    assume "\<exists>j < min 15 (length resistors - i * 15).
              p = (resistors ! (i * 15 + j), spec_resistor_at i j)"
    then obtain j where j: "j < 15" "j < length resistors - i * 15"
      and pj: "p = (resistors ! (i * 15 + j), spec_resistor_at i j)" by auto
    from j have "i * 15 + j < length resistors" by simp
    then have "resistors ! (i * 15 + j) \<in> set resistors" by (rule nth_mem)
    moreover have "\<exists>nx ny rot. spec_resistor_at i j = at_text nx ny rot"
      by (cases "resistor_relative_coords ! j") (auto simp: spec_resistor_at_def)
    ultimately show ?thesis using pj by simp
  qed
qed

lemma details_original:
  "get_footprint_details footprint_str = Inr r \<Longrightarrow> original_string r = footprint_str"
  by (auto simp: get_footprint_details_def Let_def split: option.splits sum.splits prod.splits)

lemma details_of_all_original:
  "details_of_all fps = Inr cs \<Longrightarrow> map original_string cs = fps"
  by (induction fps arbitrary: cs) (auto split: sum.splits dest: details_original)

lemma groups_from_blocks:
  assumes "displays_and_resistors fps = Inr (displays, resistors)"
    and "c \<in> set displays \<union> set resistors"
  shows "original_string c \<in> set fps"
proof -
  from assms(1) obtain cs where cs: "details_of_all fps = Inr cs"
    and d: "sort_components (filter is_display cs) ''SEGD'' = Inr displays"
    and r: "sort_components (filter is_resistor cs) ''R'' = Inr resistors"
    by (auto simp: displays_and_resistors_def split: sum.splits)
  from assms(2) sort_components_kept(1) [OF d] sort_components_kept(1) [OF r]
  have "c \<in> set cs" by auto
  then have "original_string c \<in> set (map original_string cs)" by simp
  with details_of_all_original [OF cs] show ?thesis by simp
qed

lemma main_written:
  assumes "main float_str linesep input_file = Inr (out, Some written)"
  shows "\<exists>file_text displays resistors. input_file = Holds file_text
       \<and> displays_and_resistors
            (parse_s_expression_blocks (universal_newlines file_text) ''footprint'')
            = Inr (displays, resistors)
       \<and> displays \<noteq> []"
proof -
  from assms obtain file_text where c: "input_file = Holds file_text"
    by (cases input_file) (auto simp: main_def)
  define content where "content = universal_newlines file_text"
  from assms c have ne: "parse_s_expression_blocks content ''footprint'' \<noteq> []"
    by (auto simp: main_def Let_def content_def split: if_splits)
  with assms c obtain displays resistors where
    dr: "displays_and_resistors (parse_s_expression_blocks content ''footprint'')
           = Inr (displays, resistors)"
    and pa: "place_all float_str linesep content displays resistors = Inr (out, Some written)"
    by (auto simp: main_def Let_def content_def split: sum.splits)
  from pa have "displays \<noteq> []"
    by (auto simp: place_all_def Let_def)
  with c dr show ?thesis unfolding content_def by blast
qed

text \<open>
  The frame as a relation between the text read and the text written alone.
  \<open>simple_field t\<close>: the text \<open>t\<close> is one parenthesised field without parentheses inside, as
  every anchor and every new position field is. \<open>framed A N k s t\<close>: \<open>t\<close> is \<open>s\<close> with \<open>k\<close>
  occurrences of texts of \<open>A\<close>, which do not overlap, replaced each by a run of spaces and
  one such field out of \<open>N\<close>; every other character of \<open>s\<close> is in \<open>t\<close>, in its place between
  the replaced fields.
\<close>

definition simple_field :: "string \<Rightarrow> bool" where
  "simple_field t \<longleftrightarrow>
     (\<exists>m. t = CHR ''('' # m @ '')'' \<and> CHR ''('' \<notin> set m \<and> CHR '')'' \<notin> set m)"

inductive framed :: "string set \<Rightarrow> string set \<Rightarrow> nat \<Rightarrow> string \<Rightarrow> string \<Rightarrow> bool"
  for A :: "string set" and N :: "string set"
where
  empty: "framed A N 0 [] []"
| keep: "framed A N k s t \<Longrightarrow> framed A N k (c # s) (c # t)"
| field: "framed A N k s t \<Longrightarrow> a \<in> A \<Longrightarrow> simple_field f \<Longrightarrow> f \<in> N \<Longrightarrow>
          framed A N (Suc k) (a @ s) (replicate n CHR '' '' @ f @ t)"

lemma framed_refl: "framed A N 0 s s"
  by (induction s) (auto intro: framed.intros)

text \<open>
  An occurrence of a simple field in the output so far lies within the kept text or is the
  field of an earlier replacement: it cannot straddle the two, since it has no parenthesis
  inside. So replacing it keeps the frame, with one more replaced field or, when the field
  of an earlier replacement is replaced again, with as many as before.
\<close>

lemma framed_kept_run:
  assumes "framed A N k s t" "t = u @ post" "u \<noteq> []" "CHR ''('' \<notin> set u" "last u = CHR '')''"
  shows "\<exists>s'. s = u @ s' \<and> framed A N k s' post"
  using assms
proof (induction arbitrary: u)
  case empty
  then show ?case by simp
next
  case (keep k s t c)
  from keep.prems obtain u' where u: "u = c # u'" and t: "t = u' @ post"
    by (cases u) auto
  show ?case
  proof (cases "u' = []")
    case True
    with u t keep.hyps show ?thesis by simp
  next
    case False
    with keep.prems u have "CHR ''('' \<notin> set u'" "last u' = CHR '')''" by auto
    from keep.IH [OF t False this] u show ?thesis by auto
  qed
next
  case (field k s t a f n)
  from field.hyps(3) obtain m where f: "f = CHR ''('' # m @ '')''"
    by (auto simp: simple_field_def)
  let ?t = "replicate n CHR '' '' @ f @ t"
  have open_at: "?t ! n = CHR ''(''" by (simp add: nth_append f)
  have spaces: "i < n \<Longrightarrow> ?t ! i = CHR '' ''" for i by (simp add: nth_append)
  show ?case
  proof (cases "n < length u")
    case True
    with field.prems(1) have "u ! n = ?t ! n" by (simp add: nth_append)
    with open_at True have "CHR ''('' \<in> set u" by (metis nth_mem)
    with field.prems(3) show ?thesis by simp
  next
    case False
    from field.prems(2) have "length u - 1 < length u" by (cases u) auto
    with field.prems(1) have "u ! (length u - 1) = ?t ! (length u - 1)"
      by (simp add: nth_append)
    moreover from False field.prems(2) have "length u - 1 < n" by (cases u) auto
    ultimately have "u ! (length u - 1) = CHR '' ''" using spaces by simp
    with field.prems(2,4) show ?thesis by (simp add: last_conv_nth)
  qed
qed

lemma append_split:
  assumes "xs @ ys = zs @ ws" "length xs \<le> length zs"
  shows "\<exists>r. zs = xs @ r \<and> ys = r @ ws"
proof -
  from assms(1) have "take (length xs) (zs @ ws) = xs"
    by (metis append_eq_conv_conj)
  with assms(2) have "take (length xs) zs = xs" by simp
  then have zs: "zs = xs @ drop (length xs) zs" by (metis append_take_drop_id)
  with assms(1) have "xs @ ys = xs @ drop (length xs) zs @ ws" by (metis append_assoc)
  then have "ys = drop (length xs) zs @ ws" by simp
  with zs show ?thesis by blast
qed

lemma takeWhile_to_close:
  "CHR '')'' \<notin> set m \<Longrightarrow> takeWhile (\<lambda>c. c \<noteq> CHR '')'') (m @ CHR '')'' # x) = m"
  by (induction m) auto

lemma closing_unique:
  assumes "m @ CHR '')'' # x = m' @ CHR '')'' # y" "CHR '')'' \<notin> set m" "CHR '')'' \<notin> set m'"
  shows "m = m' \<and> x = y"
proof -
  have "takeWhile (\<lambda>c. c \<noteq> CHR '')'') (m @ CHR '')'' # x) = m"
    using assms(2) by (rule takeWhile_to_close)
  moreover have "takeWhile (\<lambda>c. c \<noteq> CHR '')'') (m' @ CHR '')'' # y) = m'"
    using assms(3) by (rule takeWhile_to_close)
  ultimately have "m = m'" using assms(1) by simp
  with assms(1) show ?thesis by simp
qed

lemma framed_edit:
  assumes "framed A N k s t" "t = pre @ a @ post" "simple_field a" "a \<in> A"
    "simple_field f'" "f' \<in> N"
  shows "\<exists>k'. k' \<le> Suc k \<and> framed A N k' s (pre @ ''    '' @ f' @ post)"
  using assms(1,2)
proof (induction arbitrary: pre)
  case empty
  with assms(3) show ?case by (simp add: simple_field_def)
next
  case (keep k s t c)
  from assms(3) obtain m where a: "a = CHR ''('' # m @ '')''"
    and m: "CHR ''('' \<notin> set m" "CHR '')'' \<notin> set m"
    by (auto simp: simple_field_def)
  show ?case
  proof (cases pre)
    case Nil
    with keep.prems a have c: "c = CHR ''(''" and t: "t = (m @ '')'') @ post" by simp_all
    from framed_kept_run [OF keep.hyps t] m
    obtain s' where s': "s = (m @ '')'') @ s'" "framed A N k s' post" by auto
    from framed.field [OF s'(2) assms(4,5,6), of 4]
    have "framed A N (Suc k) (a @ s') (''    '' @ f' @ post)" by (simp add: eval_nat_numeral)
    with Nil c s'(1) a have "framed A N (Suc k) (c # s) (pre @ ''    '' @ f' @ post)" by simp
    then show ?thesis by blast
  next
    case (Cons c' pre')
    with keep.prems have "c' = c" and t: "t = pre' @ a @ post" by simp_all
    from keep.IH [OF t] obtain k' where "k' \<le> Suc k"
      "framed A N k' s (pre' @ ''    '' @ f' @ post)" by blast
    with Cons \<open>c' = c\<close> framed.keep [of A N k' s "pre' @ ''    '' @ f' @ post" c]
    show ?thesis by auto
  qed
next
  case (field k s t a0 f n)
  from assms(3) obtain m where a: "a = CHR ''('' # m @ '')''"
    and m: "CHR ''('' \<notin> set m" "CHR '')'' \<notin> set m"
    by (auto simp: simple_field_def)
  from field.hyps(3) obtain m' where f: "f = CHR ''('' # m' @ '')''"
    and m': "CHR ''('' \<notin> set m'" "CHR '')'' \<notin> set m'"
    by (auto simp: simple_field_def)
  let ?T = "replicate n CHR '' '' @ f @ t"
  let ?p = "length pre"
  from field.prems a have at_p: "?T ! ?p = CHR ''(''" by (simp add: nth_append)
  consider "?p < n" | "?p = n" | "n < ?p" "?p < n + length f" | "n + length f \<le> ?p"
    by linarith
  then show ?case
  proof cases
    case 1
    then have "?T ! ?p = CHR '' ''" by (simp add: nth_append)
    with at_p show ?thesis by simp
  next
    case 2
    from field.prems have "replicate n CHR '' '' @ (f @ t) = pre @ (a @ post)" by simp
    with 2 have pre: "pre = replicate n CHR '' ''" and rest: "f @ t = a @ post"
      by simp_all
    from rest a f have "m' @ CHR '')'' # t = m @ CHR '')'' # post" by simp
    from closing_unique [OF this m'(2) m(2)] have "t = post" by simp
    have "replicate n CHR '' '' @ ''    '' = replicate (n + 4) CHR '' ''"
      by (simp add: eval_nat_numeral replicate_app_Cons_same)
    then have "pre @ ''    '' @ f' @ post = replicate (n + 4) CHR '' '' @ f' @ t"
      using pre \<open>t = post\<close> by (metis append_assoc)
    with framed.field [OF field.hyps(1,2) assms(5,6), of "n + 4"]
    have "framed A N (Suc k) (a0 @ s) (pre @ ''    '' @ f' @ post)" by simp
    then show ?thesis by (intro exI [of _ "Suc k"]) simp
  next
    case 3
    then obtain j where j: "?p = n + Suc j" "Suc j < length f"
      by (metis add_Suc_right less_imp_Suc_add nat_add_left_cancel_less)
    then have "?T ! ?p = f ! Suc j" by (simp add: nth_append)
    with at_p f have "(m' @ '')'') ! j = CHR ''(''" by simp
    moreover from j f have "j < length (m' @ '')'')" by simp
    ultimately have "CHR ''('' \<in> set (m' @ '')'')" by (metis nth_mem)
    with m'(1) show ?thesis by simp
  next
    case 4
    from field.prems have "(replicate n CHR '' '' @ f) @ t = pre @ (a @ post)" by simp
    from append_split [OF this] 4
    obtain r where r: "pre = (replicate n CHR '' '' @ f) @ r" "t = r @ a @ post" by auto
    from field.IH [OF r(2)] obtain k' where k': "k' \<le> Suc k"
      "framed A N k' s (r @ ''    '' @ f' @ post)" by blast
    from framed.field [OF k'(2) field.hyps(2,3,4), of n] r(1)
    have "framed A N (Suc k') (a0 @ s) (pre @ ''    '' @ f' @ post)" by simp
    with k'(1) show ?thesis by (intro exI [of _ "Suc k'"]) simp
  qed
qed

text \<open>Anchors and new position fields are simple fields.\<close>

lemma is_space_no_paren: "is_space c \<Longrightarrow> c \<noteq> CHR ''('' \<and> c \<noteq> CHR '')''"
  by (auto simp: is_space_def)

lemma is_num_char_no_paren: "is_num_char c \<Longrightarrow> c \<noteq> CHR ''('' \<and> c \<noteq> CHR '')''"
  by (auto simp: is_num_char_def is_digit_def)

lemma some1_class: "some1 cls s = Some (g, r) \<Longrightarrow> c \<in> set g \<Longrightarrow> cls c"
  by (auto simp: some1_def split: if_splits dest: set_takeWhileD)

lemma some1_space_no_paren:
  "some1 is_space s = Some (g, r) \<Longrightarrow> CHR ''('' \<notin> set g \<and> CHR '')'' \<notin> set g"
  by (blast dest: some1_class is_space_no_paren)

lemma some1_num_no_paren:
  "some1 is_num_char s = Some (g, r) \<Longrightarrow> CHR ''('' \<notin> set g \<and> CHR '')'' \<notin> set g"
  by (blast dest: some1_class is_num_char_no_paren)

lemma at_tail_shape:
  assumes "at_tail s = Some (tl_text, grot)"
  shows "\<exists>w. tl_text = w @ '')'' \<and> CHR ''('' \<notin> set w \<and> CHR '')'' \<notin> set w"
proof (cases "some1 is_space s")
  case None
  with assms have "tl_text = [] @ '')''" by (auto simp: at_tail_def split: option.splits)
  then show ?thesis by (intro exI [of _ "[]"]) simp
next
  case (Some wr)
  obtain ws s1 where wr: "wr = (ws, s1)" by (cases wr)
  show ?thesis
  proof (cases "some1 is_num_char s1")
    case None
    with assms Some wr have "tl_text = [] @ '')''"
      by (auto simp: at_tail_def split: option.splits)
    then show ?thesis by (intro exI [of _ "[]"]) simp
  next
    case Some2: (Some rr)
    obtain rot s2 where rr: "rr = (rot, s2)" by (cases rr)
    from assms Some wr Some2 rr have "tl_text = (ws @ rot) @ '')'' \<or> tl_text = [] @ '')''"
      by (auto simp: at_tail_def split: option.splits)
    moreover from some1_space_no_paren [of s ws s1] Some wr
      some1_num_no_paren [of s1 rot s2] Some2 rr
    have "CHR ''('' \<notin> set (ws @ rot) \<and> CHR '')'' \<notin> set (ws @ rot)" by simp
    ultimately show ?thesis by (metis empty_iff empty_set)
  qed
qed

lemma at_pattern_shape:
  assumes "at_pattern s = Some (matched, gx, gy, grot)"
  shows "simple_field matched"
proof -
  from assms obtain s1 ws1 s2 s3 ws2 s4 s5 tl_text where
    1: "some1 is_space s1 = Some (ws1, s2)" and 2: "some1 is_num_char s2 = Some (gx, s3)"
    and 3: "some1 is_space s3 = Some (ws2, s4)" and 4: "some1 is_num_char s4 = Some (gy, s5)"
    and 5: "at_tail s5 = Some (tl_text, grot)"
    and matched: "matched = ''(at'' @ ws1 @ gx @ ws2 @ gy @ tl_text"
    by (auto simp: at_pattern_def split: option.splits prod.splits)
  from at_tail_shape [OF 5] obtain w where w: "tl_text = w @ '')''"
    "CHR ''('' \<notin> set w" "CHR '')'' \<notin> set w" by blast
  let ?m = "''at'' @ ws1 @ gx @ ws2 @ gy @ w"
  from some1_space_no_paren [OF 1] some1_num_no_paren [OF 2] some1_space_no_paren [OF 3]
    some1_num_no_paren [OF 4] w(2,3)
  have "CHR ''('' \<notin> set ?m \<and> CHR '')'' \<notin> set ?m" by simp
  moreover from matched w(1) have "matched = CHR ''('' # ?m @ '')''" by simp
  ultimately show ?thesis unfolding simple_field_def by blast
qed

lemma re_search_at: "re_search pat s = Some r \<Longrightarrow> \<exists>suffix. pat suffix = Some r"
  by (induction s) (auto split: option.splits)

lemma details_anchor_shape:
  assumes "get_footprint_details footprint_str = Inr r" "at_string r = Some a"
  shows "simple_field a"
proof -
  from assms obtain gx gy grot where "re_search at_pattern footprint_str = Some (a, gx, gy, grot)"
    by (auto simp: get_footprint_details_def Let_def split: option.splits sum.splits prod.splits)
  from re_search_at [OF this] at_pattern_shape show ?thesis by blast
qed

lemma details_of_all_anchor_shape:
  "details_of_all fps = Inr cs \<Longrightarrow> c \<in> set cs \<Longrightarrow> at_string c = Some a \<Longrightarrow> simple_field a"
  by (induction fps arbitrary: cs) (auto split: sum.splits dest: details_anchor_shape)

lemma groups_anchor_shape:
  assumes "displays_and_resistors fps = Inr (displays, resistors)"
    and "c \<in> set displays \<union> set resistors" "at_string c = Some a"
  shows "simple_field a"
proof -
  from assms(1) obtain cs where cs: "details_of_all fps = Inr cs"
    and d: "sort_components (filter is_display cs) ''SEGD'' = Inr displays"
    and r: "sort_components (filter is_resistor cs) ''R'' = Inr resistors"
    by (auto simp: displays_and_resistors_def split: sum.splits)
  from assms(2) sort_components_kept(1) [OF d] sort_components_kept(1) [OF r]
  have "c \<in> set cs" by auto
  from details_of_all_anchor_shape [OF cs this assms(3)] show ?thesis .
qed

lemma digit_char_digit: "digit_char d \<in> set ''0123456789''"
proof -
  have "d mod 10 < length ''0123456789''" by simp
  then show ?thesis unfolding digit_char_def by (rule nth_mem)
qed

lemma str_nat_digits: "set (str_nat n) \<subseteq> set ''0123456789''"
proof (induction n rule: str_nat.induct)
  case (1 n)
  show ?case
  proof (cases "n < 10")
    case True
    with digit_char_digit [of n] show ?thesis by (simp add: str_nat.simps [of n])
  next
    case False
    with "1.IH" digit_char_digit [of "n mod 10"] show ?thesis
      by (simp add: str_nat.simps [of n])
  qed
qed

lemma str_nat_no_paren: "CHR ''('' \<notin> set (str_nat n) \<and> CHR '')'' \<notin> set (str_nat n)"
  using str_nat_digits [of n] by auto

lemma str_int_no_paren: "CHR ''('' \<notin> set (str_int v) \<and> CHR '')'' \<notin> set (str_int v)"
  using str_nat_no_paren by (simp add: str_int_def)

lemma fixed_no_paren: "CHR ''('' \<notin> set (fixed places v) \<and> CHR '')'' \<notin> set (fixed places v)"
proof -
  let ?tl = "digit_char (nat (\<bar>v\<bar> mod 10)) # replicate (places - 1) CHR ''0''"
  have "set ?tl \<subseteq> set ''0123456789''"
    using digit_char_digit [of "nat (\<bar>v\<bar> mod 10)"] by auto
  moreover have "set (take places ?tl) \<subseteq> set ?tl" by (rule set_take_subset)
  ultimately have "CHR ''('' \<notin> set (take places ?tl) \<and> CHR '')'' \<notin> set (take places ?tl)"
    by auto
  with str_nat_no_paren [of "nat (\<bar>v\<bar> div 10)"] show ?thesis
    by (simp add: fixed_def)
qed

lemma at_text_simple:
  assumes "CHR ''('' \<notin> set rot" "CHR '')'' \<notin> set rot"
  shows "simple_field (at_text nx ny rot)"
proof -
  let ?m = "''at '' @ fixed 4 nx @ '' '' @ fixed 4 ny @ rot"
  from fixed_no_paren [of 4 nx] fixed_no_paren [of 4 ny] assms
  have "CHR ''('' \<notin> set ?m \<and> CHR '')'' \<notin> set ?m" by simp
  moreover have "at_text nx ny rot = CHR ''('' # ?m @ '')''" by (simp add: at_text_def)
  ultimately show ?thesis unfolding simple_field_def by blast
qed

lemma spec_placements_simple:
  assumes "\<forall>f. CHR ''('' \<notin> set (float_str f) \<and> CHR '')'' \<notin> set (float_str f)"
    and "p \<in> set (spec_placements float_str displays resistors)"
  shows "simple_field (snd p)"
proof -
  from assms(2) obtain i where
    "p \<in> set ((displays ! i, spec_display_at float_str i (displays ! i))
        # map (\<lambda>j. (resistors ! (i * 15 + j), spec_resistor_at i j))
            [0..<min 15 (length resistors - i * 15)])"
    unfolding spec_placements_def by auto
  then consider "snd p = spec_display_at float_str i (displays ! i)"
    | j where "snd p = spec_resistor_at i j" by auto
  then show ?thesis
  proof cases
    case 1
    with assms(1) show ?thesis
      by (auto simp: spec_display_at_def intro!: at_text_simple split: option.splits)
  next
    case 2
    with str_int_no_paren show ?thesis
      by (cases "resistor_relative_coords ! j")
        (auto simp: spec_resistor_at_def intro!: at_text_simple)
  qed
qed

lemma framed_apply_sub:
  assumes fr: "framed A N k doc mid"
    and field: "\<And>a. at_string c = Some a \<Longrightarrow> a \<in> A \<and> simple_field a"
    and new: "simple_field t" "t \<in> N"
  shows "\<exists>k'. k' \<le> Suc k \<and> framed A N k' doc (apply_sub mid (c, t))"
proof (cases "substitute mid c t")
  case None
  with fr have "framed A N k doc (apply_sub mid (c, t))" by (simp add: apply_sub_def)
  then show ?thesis by (intro exI [of _ k]) simp
next
  case (Some doc')
  from substitute_cases [OF Some] obtain a where a: "at_string c = Some a"
    and alt: "(\<not> sublist a (original_string c) \<and> doc' = mid) \<or>
       (\<exists>pre post bpre bpost.
           first_occurrence (original_string c) mid pre post
         \<and> first_occurrence a (original_string c) bpre bpost
         \<and> doc' = pre @ bpre @ ''    '' @ t @ bpost @ post)" by blast
  from alt show ?thesis
  proof
    assume "\<not> sublist a (original_string c) \<and> doc' = mid"
    with Some fr have "framed A N k doc (apply_sub mid (c, t))" by (simp add: apply_sub_def)
    then show ?thesis by (intro exI [of _ k]) simp
  next
    assume "\<exists>pre post bpre bpost.
           first_occurrence (original_string c) mid pre post
         \<and> first_occurrence a (original_string c) bpre bpost
         \<and> doc' = pre @ bpre @ ''    '' @ t @ bpost @ post"
    then obtain pre post bpre bpost where
      m: "mid = pre @ original_string c @ post"
      and b: "original_string c = bpre @ a @ bpost"
      and d: "doc' = pre @ bpre @ ''    '' @ t @ bpost @ post"
      by (auto simp: first_occurrence_def)
    from m b have "mid = (pre @ bpre) @ a @ (bpost @ post)" by simp
    from framed_edit [OF fr this _ _ new] field [OF a]
    obtain k' where "k' \<le> Suc k"
      "framed A N k' doc ((pre @ bpre) @ ''    '' @ t @ (bpost @ post))" by blast
    with d Some show ?thesis by (intro exI [of _ k']) (simp add: apply_sub_def)
  qed
qed

lemma framed_foldl:
  assumes "framed A N k doc mid"
    and "\<forall>p \<in> set plan. simple_field (snd p) \<and> snd p \<in> N
           \<and> (\<forall>a. at_string (fst p) = Some a \<longrightarrow> a \<in> A \<and> simple_field a)"
  shows "\<exists>k'. k' \<le> k + length plan \<and> framed A N k' doc (foldl apply_sub mid plan)"
  using assms
proof (induction plan arbitrary: mid k)
  case Nil
  then show ?case by (intro exI [of _ k]) simp
next
  case (Cons p plan)
  obtain c t where p: "p = (c, t)" by (cases p)
  from Cons.prems(2) p have "\<exists>k'. k' \<le> Suc k \<and> framed A N k' doc (apply_sub mid (c, t))"
    by (intro framed_apply_sub [OF Cons.prems(1)]) auto
  then obtain k1 where k1: "k1 \<le> Suc k" "framed A N k1 doc (apply_sub mid p)"
    using p by blast
  from Cons.IH [OF k1(2)] Cons.prems(2)
  obtain k' where "k' \<le> k1 + length plan"
    "framed A N k' doc (foldl apply_sub (apply_sub mid p) plan)" by auto
  with k1(1) show ?case by (intro exI [of _ k']) simp
qed

text \<open>
  Claim C3, as the code has it. Whenever the script writes a document, the text handed to
  the writer comes from the text read by the substitution mechanics, applied once to each
  display and each resistor of the layout, in the order of processing and with the
  position field the layout gives it; the verbatim texts of these records are blocks of
  the text read. Between the two texts this leaves every character in place but those of
  replaced anchor texts of these records, which are no more than the layout has entries
  and are replaced each by spaces and a position field of the layout, provided that
  \<open>str\<close> prints no parenthesis in a float, as Python's does not. The text read is the text
  of the input file with universal newlines, which is the file's own text when that holds
  no CR; the output file holds the text handed to the writer with every LF turned into the
  line separator of the platform, which is that text itself where the separator is LF.
\<close>

theorem output_frame:
  assumes "main float_str linesep input_file = Inr (out, Some written)"
  shows "\<exists>file_text displays resistors doc.
         input_file = Holds file_text
       \<and> displays_and_resistors
            (parse_s_expression_blocks (universal_newlines file_text) ''footprint'')
            = Inr (displays, resistors)
       \<and> (\<forall>c \<in> set displays \<union> set resistors.
             original_string c
               \<in> set (parse_s_expression_blocks (universal_newlines file_text) ''footprint''))
       \<and> written = write_newlines linesep doc
       \<and> substituted (spec_placements float_str displays resistors)
            (universal_newlines file_text) doc
       \<and> ((\<forall>f. CHR ''('' \<notin> set (float_str f) \<and> CHR '')'' \<notin> set (float_str f)) \<longrightarrow>
            (\<exists>k \<le> length (spec_placements float_str displays resistors).
               framed {a. \<exists>c \<in> set displays \<union> set resistors. at_string c = Some a}
                 (snd ` set (spec_placements float_str displays resistors)) k
                 (universal_newlines file_text) doc))
       \<and> (CHR 0x0D \<notin> set file_text \<longrightarrow> universal_newlines file_text = file_text)
       \<and> (linesep = [CHR 0x0A] \<longrightarrow> written = doc)"
proof -
  from main_written [OF assms] obtain file_text displays resistors where
    c: "input_file = Holds file_text"
    and dr: "displays_and_resistors
           (parse_s_expression_blocks (universal_newlines file_text) ''footprint'')
           = Inr (displays, resistors)"
    and ne: "displays \<noteq> []" by blast
  let ?content = "universal_newlines file_text"
  let ?A = "{a. \<exists>c \<in> set displays \<union> set resistors. at_string c = Some a}"
  let ?plan = "spec_placements float_str displays resistors"
  let ?doc = "foldl apply_sub ?content ?plan"
  from main_run [OF dr ne, of float_str linesep] assms c
  have w: "written = write_newlines linesep ?doc"
    by auto
  have sub: "substituted ?plan ?content ?doc" by (rule substituted_foldl)
  have fr: "\<exists>k \<le> length ?plan. framed ?A (snd ` set ?plan) k ?content ?doc"
    if fs: "\<forall>f. CHR ''('' \<notin> set (float_str f) \<and> CHR '')'' \<notin> set (float_str f)"
  proof -
    have "\<forall>p \<in> set ?plan. simple_field (snd p) \<and> snd p \<in> snd ` set ?plan
           \<and> (\<forall>a. at_string (fst p) = Some a \<longrightarrow> a \<in> ?A \<and> simple_field a)"
    proof (intro ballI conjI allI impI)
      fix p assume p: "p \<in> set ?plan"
      from spec_placements_simple [OF fs p] show "simple_field (snd p)" .
      from p show "snd p \<in> snd ` set ?plan" by (rule imageI)
      fix a assume a: "at_string (fst p) = Some a"
      from spec_placements_members [OF p] have m: "fst p \<in> set displays \<union> set resistors"
        by simp
      with a show "a \<in> ?A" by blast
      from groups_anchor_shape [OF dr m a] show "simple_field a" .
    qed
    from framed_foldl [OF framed_refl this] show ?thesis by simp
  qed
  have cr: "universal_newlines file_text = file_text" if "CHR 0x0D \<notin> set file_text"
    using that by (rule universal_newlines_id)
  have lf: "written = ?doc" if "linesep = [CHR 0x0A]"
    using that w by (simp add: write_newlines_id)
  from c dr w sub fr cr lf groups_from_blocks [OF dr] show ?thesis by blast
qed

lemma example_main:
  "main (\<lambda>f. ''90.0'') [CHR 0x0A] (Holds example_board)
     = Inr ([''Found 1 displays to process.'', ''Found 1 resistors to process.'',
             ''Warning: Found 1 resistors, but expected at least 15.'',
             ''Placed SEGD1    at X=5.70'', complete_line],
            Some example_board_placed)"
  by code_simp

theorem output_frame_witness:
  "\<exists>displays resistors k.
      displays_and_resistors (parse_s_expression_blocks example_board ''footprint'')
         = Inr (displays, resistors)
    \<and> substituted (spec_placements (\<lambda>f. ''90.0'') displays resistors)
         example_board example_board_placed
    \<and> k \<le> length (spec_placements (\<lambda>f. ''90.0'') displays resistors)
    \<and> framed {a. \<exists>c \<in> set displays \<union> set resistors. at_string c = Some a}
         (snd ` set (spec_placements (\<lambda>f. ''90.0'') displays resistors)) k
         example_board example_board_placed"
proof -
  have fs: "\<forall>f. CHR ''('' \<notin> set ((\<lambda>f. ''90.0'') f) \<and> CHR '')'' \<notin> set ((\<lambda>f. ''90.0'') f)"
    by simp
  have cr: "CHR 0x0D \<notin> set example_board" by (simp add: example_board_def)
  from output_frame [OF example_main] obtain file_text displays resistors doc where
    h: "Holds example_board = Holds file_text"
    and dr: "displays_and_resistors
         (parse_s_expression_blocks (universal_newlines file_text) ''footprint'')
         = Inr (displays, resistors)"
    and sub: "substituted (spec_placements (\<lambda>f. ''90.0'') displays resistors)
         (universal_newlines file_text) doc"
    and fr: "(\<forall>f. CHR ''('' \<notin> set ((\<lambda>f. ''90.0'') f) \<and> CHR '')'' \<notin> set ((\<lambda>f. ''90.0'') f)) \<longrightarrow>
          (\<exists>k \<le> length (spec_placements (\<lambda>f. ''90.0'') displays resistors).
             framed {a. \<exists>c \<in> set displays \<union> set resistors. at_string c = Some a}
               (snd ` set (spec_placements (\<lambda>f. ''90.0'') displays resistors)) k
               (universal_newlines file_text) doc)"
    and id: "CHR 0x0D \<notin> set file_text \<longrightarrow> universal_newlines file_text = file_text"
    and lf: "[CHR 0x0A] = [CHR 0x0A] \<longrightarrow> example_board_placed = doc"
    by blast
  from h have ft: "file_text = example_board" by simp
  from id cr ft have rd: "universal_newlines file_text = example_board" by simp
  from lf have d: "doc = example_board_placed" by simp
  from fr fs obtain k where "k \<le> length (spec_placements (\<lambda>f. ''90.0'') displays resistors)"
    "framed {a. \<exists>c \<in> set displays \<union> set resistors. at_string c = Some a}
       (snd ` set (spec_placements (\<lambda>f. ''90.0'') displays resistors)) k
       (universal_newlines file_text) doc" by blast
  with dr sub show ?thesis unfolding rd d by blast
qed

text \<open>
  The claim as worded fails on the line ends. A board with a CR LF between its two
  footprints is read with an LF in its place, so the CR, which is part of no position
  field, is not in the document written. And where the line separator is CR LF, the board
  with an LF there is written with a CR LF in its place. \<open>board_crlf\<close> is the small board
  with CR LF as its line end, and \<open>board_crlf_placed\<close> the same after placement.
\<close>

definition board_crlf :: string where
  \<open>board_crlf =
     ''(footprint "External_Parts:ACPSC04-41SEKWA" (at 1 2 90) (property "Reference" "SEGD1"))''
       @ [CHR 0x0D, CHR 0x0A]
       @ '' (footprint "Resistor_SMD:R" (property "Reference" "R2") (at 3 4))''\<close>

definition board_crlf_placed :: string where
  \<open>board_crlf_placed =
     ''(footprint "External_Parts:ACPSC04-41SEKWA"     (at 5.7000 199.1000 90.0) (property "Reference" "SEGD1"))''
       @ [CHR 0x0D, CHR 0x0A]
       @ '' (footprint "Resistor_SMD:R" (property "Reference" "R2")     (at 0.0000 195.1000 90))''\<close>

theorem output_frame_counterexample:
  "main (\<lambda>f. ''90.0'') [CHR 0x0A] (Holds board_crlf)
     = Inr ([''Found 1 displays to process.'', ''Found 1 resistors to process.'',
             ''Warning: Found 1 resistors, but expected at least 15.'',
             ''Placed SEGD1    at X=5.70'', complete_line],
            Some example_board_placed)
   \<and> displays_and_resistors
       (parse_s_expression_blocks (universal_newlines board_crlf) ''footprint'')
       = Inr ([example_display], [example_resistor])
   \<and> at_string example_display = Some ''(at 1 2 90)''
   \<and> at_string example_resistor = Some ''(at 3 4)''
   \<and> CHR 0x0D \<in> set board_crlf
   \<and> CHR 0x0D \<notin> set example_board_placed
   \<and> main (\<lambda>f. ''90.0'') [CHR 0x0D, CHR 0x0A] (Holds example_board)
     = Inr ([''Found 1 displays to process.'', ''Found 1 resistors to process.'',
             ''Warning: Found 1 resistors, but expected at least 15.'',
             ''Placed SEGD1    at X=5.70'', complete_line],
            Some board_crlf_placed)
   \<and> CHR 0x0D \<notin> set example_board
   \<and> CHR 0x0D \<in> set board_crlf_placed"
  by code_simp

subsection \<open>Records that are skipped\<close>

text \<open>A board of one display, whose reference has the prefix of its group and no digit.\<close>

definition board_no_digit :: string where
  \<open>board_no_digit =
     ''(footprint "External_Parts:ACPSC04-41SEKWA" (property "Reference" "SEGDX") (at 1 2))''\<close>

text \<open>
  Claim C7 says that a record whose reference does not parse a number is skipped and that
  no exception propagates from it. It is not so for a display whose reference starts with
  \<open>SEGD\<close> and holds no digit: the filter of \<open>sort_components\<close> keeps it, the sort key
  raises \<open>AttributeError\<close> on it, nothing catches that, and the run ends before anything
  is printed or written. The same holds of a resistor whose reference starts with \<open>R\<close>.
\<close>

theorem main_raises_without_digit:
  "main (\<lambda>f. []) [CHR 0x0A] (Holds board_no_digit) = Inl AttributeError"
  by code_simp

text \<open>
  The other records of the claim are skipped, and nothing is raised. A record whose
  reference is null, empty or without the prefix of the group is not in the sorted group,
  so neither loop comes to it. A record whose anchor is null has its substitution refused:
  its turn in either loop changes neither the document nor the console output, and the
  display loop goes on with the resistors of its slice. No message is printed for either:
  the only \<open>print\<close> of the display loop is inside the guard of the substitution, and the
  resistor loop prints for a resistor without slot only.
\<close>

lemma null_anchor_skipped:
  assumes "at_string c = None"
  shows "substitute doc c new_at = None"
    and "place_displays float_str resistors i (c # rest) (doc, out)
          = place_displays float_str resistors (Suc i) rest
              (place_resistors (start_x + int i * spacing) start_y 0
                 (slice resistors (i * 15) (i * 15 + 15)) (doc, out))"
    and "j < 15 \<Longrightarrow>
          place_resistors nx ny j (c # rest) (doc, out)
            = place_resistors nx ny (Suc j) rest (doc, out)"
proof -
  from assms show "substitute doc c new_at = None" by (simp add: substitute_def)
  from assms have s: "substitute doc c t = None" for t by (simp add: substitute_def)
  then show "place_displays float_str resistors i (c # rest) (doc, out)
          = place_displays float_str resistors (Suc i) rest
              (place_resistors (start_x + int i * spacing) start_y 0
                 (slice resistors (i * 15) (i * 15 + 15)) (doc, out))"
    by (simp add: Let_def)
  assume "j < 15"
  with s show "place_resistors nx ny j (c # rest) (doc, out)
              = place_resistors nx ny (Suc j) rest (doc, out)"
    by (simp add: table_length split: prod.splits)
qed

definition board_no_anchor :: string where
  \<open>board_no_anchor =
     ''(footprint "External_Parts:ACPSC04-41SEKWA" (property "Reference" "SEGD1"))''\<close>

lemma null_anchor_example:
  "main (\<lambda>f. []) [CHR 0x0A] (Holds board_no_anchor)
     = Inr ([''Found 1 displays to process.'', ''Found 0 resistors to process.'',
             ''Warning: Found 0 resistors, but expected at least 15.'', complete_line],
            Some board_no_anchor)"
  by code_simp

end
